theory Spec2Isabelle
  imports Complex_Main "HOL-Library.AList" "HOL-Library.Log_Nat" "HOL-Library.Multiset"
begin

section \<open>JavaScript numbers\<close>

text \<open>
  A JavaScript \<open>number\<close> is NaN, one of the two infinities or a finite value, kept
  as a rational. A number read from a string (\<open>parseFloat\<close>, the unary plus) is the
  IEEE double nearest to what the string says, or an infinity beyond the range of the
  doubles: \<open>roundToDouble\<close> below. Sums, differences and quotients of finite values are
  taken exactly, where the code rounds them to a double once more (\<open>toDouble\<close> below);
  that rounding changes neither a NaN or an infinity nor the sign of a difference of two
  doubles, which is all the comparator of the sort is read for. The sign of zero is not
  modelled (\<open>-0\<close> is \<open>Fin 0\<close>).
\<close>

datatype jsnum = NaN | NInf | Fin rat | PInf

fun jsneg :: "jsnum \<Rightarrow> jsnum" where
  "jsneg NaN = NaN"
| "jsneg NInf = PInf"
| "jsneg PInf = NInf"
| "jsneg (Fin a) = Fin (- a)"

text \<open>\<open>a + b\<close> on numbers.\<close>

fun jsadd :: "jsnum \<Rightarrow> jsnum \<Rightarrow> jsnum" where
  "jsadd (Fin a) (Fin b) = Fin (a + b)"
| "jsadd NaN b = NaN"
| "jsadd a NaN = NaN"
| "jsadd PInf NInf = NaN"
| "jsadd NInf PInf = NaN"
| "jsadd PInf b = PInf"
| "jsadd NInf b = NInf"
| "jsadd (Fin a) b = b"

text \<open>\<open>a - b\<close> on numbers.\<close>

definition jssub :: "jsnum \<Rightarrow> jsnum \<Rightarrow> jsnum" where
  "jssub a b = jsadd a (jsneg b)"

text \<open>\<open>a / b\<close> on numbers: a zero divisor gives NaN (for \<open>0 / 0\<close>) or an infinity.\<close>

fun jsdiv :: "jsnum \<Rightarrow> jsnum \<Rightarrow> jsnum" where
  "jsdiv (Fin a) (Fin b) =
     (if b = 0 then (if a = 0 then NaN else if 0 < a then PInf else NInf)
      else Fin (a / b))"
| "jsdiv NaN b = NaN"
| "jsdiv a NaN = NaN"
| "jsdiv (Fin a) b = Fin 0"
| "jsdiv PInf (Fin b) = (if 0 \<le> b then PInf else NInf)"
| "jsdiv NInf (Fin b) = (if 0 \<le> b then NInf else PInf)"
| "jsdiv a b = NaN"

text \<open>The comparisons \<open><\<close>, \<open><=\<close>, \<open>>\<close>, \<open>>=\<close>: false as soon as one side is NaN.\<close>

fun jslt :: "jsnum \<Rightarrow> jsnum \<Rightarrow> bool" where
  "jslt (Fin a) (Fin b) = (a < b)"
| "jslt NaN b = False"
| "jslt a NaN = False"
| "jslt a NInf = False"
| "jslt PInf b = False"
| "jslt a b = True"

definition jsle :: "jsnum \<Rightarrow> jsnum \<Rightarrow> bool" where
  "jsle a b = (a \<noteq> NaN \<and> b \<noteq> NaN \<and> \<not> jslt b a)"

definition jsgt :: "jsnum \<Rightarrow> jsnum \<Rightarrow> bool" where
  "jsgt a b = jslt b a"

definition jsge :: "jsnum \<Rightarrow> jsnum \<Rightarrow> bool" where
  "jsge a b = jsle b a"

text \<open>\<open>Math.ceil\<close>.\<close>

fun jsceil :: "jsnum \<Rightarrow> jsnum" where
  "jsceil (Fin a) = Fin (of_int \<lceil>a\<rceil>)"
| "jsceil a = a"

text \<open>Truthiness of a number: \<open>0\<close> and NaN are falsy.\<close>

definition truthy :: "jsnum \<Rightarrow> bool" where
  "truthy a = (a \<noteq> NaN \<and> a \<noteq> Fin 0)"

text \<open>\<open>Math.max(...xs)\<close> and \<open>Math.min(...xs)\<close>: NaN wins, the empty list gives an infinity.\<close>

fun jsmax2 :: "jsnum \<Rightarrow> jsnum \<Rightarrow> jsnum" where
  "jsmax2 a b = (if a = NaN \<or> b = NaN then NaN else if jslt a b then b else a)"

fun jsmin2 :: "jsnum \<Rightarrow> jsnum \<Rightarrow> jsnum" where
  "jsmin2 a b = (if a = NaN \<or> b = NaN then NaN else if jslt b a then b else a)"

definition Math_max :: "jsnum list \<Rightarrow> jsnum" where
  "Math_max xs = foldl jsmax2 NInf xs"

definition Math_min :: "jsnum list \<Rightarrow> jsnum" where
  "Math_min xs = foldl jsmin2 PInf xs"

section \<open>Doubles\<close>

text \<open>
  The binade of a positive rational: the \<open>e\<close> with \<open>2^e \<le> q < 2^(e+1)\<close>.
\<close>

definition binade :: "rat \<Rightarrow> int" where
  "binade q = (if 1 \<le> q then bitlen \<lfloor>q\<rfloor> - 1 else - bitlen (\<lceil>1 / q\<rceil> - 1))"

text \<open>Rounding to the nearest integer, a tie to the even one.\<close>

definition roundHalfEven :: "rat \<Rightarrow> int" where
  "roundHalfEven s =
     (if s - of_int \<lfloor>s\<rfloor> < 1 / 2 then \<lfloor>s\<rfloor>
      else if 1 / 2 < s - of_int \<lfloor>s\<rfloor> then \<lfloor>s\<rfloor> + 1
      else if even \<lfloor>s\<rfloor> then \<lfloor>s\<rfloor> else \<lfloor>s\<rfloor> + 1)"

text \<open>
  The exponent of the last bit of a binary64 significand for a positive rational: 53
  bits from the binade down, and not below \<open>2^-1074\<close>, the step of the subnormal
  numbers.
\<close>

definition quantum :: "rat \<Rightarrow> int" where
  "quantum q = max (binade q - 52) (- 1074)"

text \<open>The multiple of that step nearest to a positive rational, a tie to the even one.\<close>

definition nearest :: "rat \<Rightarrow> rat" where
  "nearest q = of_int (roundHalfEven (q / 2 powi quantum q)) * 2 powi quantum q"

text \<open>
  The Number value of a rational: the nearest double, and an infinity when that would
  be \<open>2^1024\<close> or more. Rounding is the same on both sides of zero.
\<close>

definition roundToDouble :: "rat \<Rightarrow> jsnum" where
  "roundToDouble q =
     (if q = 0 then Fin 0
      else if 2 ^ 1024 \<le> nearest \<bar>q\<bar> then (if 0 < q then PInf else NInf)
      else Fin (if 0 < q then nearest \<bar>q\<bar> else - nearest \<bar>q\<bar>))"

text \<open>
  The Number value of the exact result of an operation: a finite result is rounded to a
  double, NaN and the infinities are themselves.
\<close>

definition toDouble :: "jsnum \<Rightarrow> jsnum" where
  "toDouble n = (case n of Fin q \<Rightarrow> roundToDouble q | _ \<Rightarrow> n)"

section \<open>Strings to numbers\<close>

text \<open>
  Strings are lists of 8-bit characters, one per UTF-16 code unit of the source; code
  units above 255 are outside the model.
\<close>

definition isWhiteSpace :: "char \<Rightarrow> bool" where
  "isWhiteSpace c = (c \<in> set [CHR 0x09, CHR 0x0A, CHR 0x0B, CHR 0x0C, CHR 0x0D, CHR '' '', CHR 0xA0])"

definition isDigit :: "char \<Rightarrow> bool" where
  "isDigit c = (c \<in> set ''0123456789'')"

definition digitVal :: "char \<Rightarrow> nat" where
  "digitVal c = of_char c - 48"

text \<open>The value of a run of decimal digits, most significant first.\<close>

definition digitsVal :: "string \<Rightarrow> nat" where
  "digitsVal ds = foldl (\<lambda>a c. 10 * a + digitVal c) 0 ds"

definition pow10 :: "int \<Rightarrow> rat" where
  "pow10 e = (if 0 \<le> e then 10 ^ nat e else 1 / 10 ^ nat (- e))"

text \<open>
  \<open>ExponentPart\<close> of the grammar of \<open>StrDecimalLiteral\<close>: \<open>e\<close> or \<open>E\<close>, an optional
  sign and at least one digit. Without the digits there is no exponent and nothing is
  consumed.
\<close>

definition exponentPart :: "string \<Rightarrow> int \<times> string" where
  "exponentPart s =
     (case s of
        [] \<Rightarrow> (0, s)
      | c # r \<Rightarrow>
          if c = CHR ''e'' \<or> c = CHR ''E'' then
            (case r of
               [] \<Rightarrow> (0, s)
             | g # r' \<Rightarrow>
                 if g = CHR ''+'' \<or> g = CHR ''-'' then
                   (if takeWhile isDigit r' = [] then (0, s)
                    else ((if g = CHR ''-'' then - int (digitsVal (takeWhile isDigit r'))
                           else int (digitsVal (takeWhile isDigit r'))),
                          dropWhile isDigit r'))
                 else if takeWhile isDigit r = [] then (0, s)
                 else (int (digitsVal (takeWhile isDigit r)), dropWhile isDigit r))
          else (0, s))"

text \<open>
  The longest prefix that is a \<open>StrUnsignedDecimalLiteral\<close>, with its value and the
  rest of the string: \<open>Infinity\<close>, digits with an optional fraction and exponent, or a
  fraction that starts with the point. The value is the mathematical value of the
  literal, rounded once to the nearest double, as the engines do (the standard lets an
  implementation round a literal of more than 20 significant digits at its 20th digit
  first).
\<close>

definition strUnsignedDecimalLiteral :: "string \<Rightarrow> (jsnum \<times> string) option" where
  "strUnsignedDecimalLiteral s =
     (if take 8 s = ''Infinity'' then Some (PInf, drop 8 s)
      else
        let ip = takeWhile isDigit s; r1 = dropWhile isDigit s in
        (case r1 of
           [] \<Rightarrow> if ip = [] then None else Some (roundToDouble (of_nat (digitsVal ip)), [])
         | c # r2 \<Rightarrow>
             if c = CHR ''.'' then
               (let fp = takeWhile isDigit r2; r3 = dropWhile isDigit r2 in
                if ip = [] \<and> fp = [] then None
                else
                  Some (roundToDouble
                          ((of_nat (digitsVal ip) + of_nat (digitsVal fp) / 10 ^ length fp)
                           * pow10 (fst (exponentPart r3))),
                        snd (exponentPart r3)))
             else if ip = [] then None
             else Some (roundToDouble (of_nat (digitsVal ip) * pow10 (fst (exponentPart r1))),
                        snd (exponentPart r1))))"

definition strDecimalLiteral :: "string \<Rightarrow> (jsnum \<times> string) option" where
  "strDecimalLiteral s =
     (case s of
        [] \<Rightarrow> None
      | c # r \<Rightarrow>
          if c = CHR ''+'' then strUnsignedDecimalLiteral r
          else if c = CHR ''-'' then map_option (\<lambda>(v, t). (jsneg v, t)) (strUnsignedDecimalLiteral r)
          else strUnsignedDecimalLiteral s)"

text \<open>
  \<open>parseFloat(s)\<close>: leading white space is skipped, the longest prefix that is a
  decimal literal gives the value, anything after it is ignored; NaN without such a
  prefix.
\<close>

definition parseFloat :: "string \<Rightarrow> jsnum" where
  "parseFloat s =
     (case strDecimalLiteral (dropWhile isWhiteSpace s) of
        None \<Rightarrow> NaN
      | Some (v, t) \<Rightarrow> v)"

text \<open>\<open>s.trim()\<close>.\<close>

definition trim :: "string \<Rightarrow> string" where
  "trim s = rev (dropWhile isWhiteSpace (rev (dropWhile isWhiteSpace s)))"

text \<open>
  The literals \<open>0x..\<close>, \<open>0o..\<close> and \<open>0b..\<close> that the unary plus accepts besides the
  decimal ones.
\<close>

definition radixDigit :: "char \<Rightarrow> nat option" where
  "radixDigit c =
     (if isDigit c then Some (digitVal c)
      else if c \<in> set ''abcdef'' then Some (of_char c - 87)
      else if c \<in> set ''ABCDEF'' then Some (of_char c - 55)
      else None)"

definition radixVal :: "nat \<Rightarrow> string \<Rightarrow> nat option" where
  "radixVal b ds =
     (if ds \<noteq> [] \<and> (\<forall>c \<in> set ds. case radixDigit c of None \<Rightarrow> False | Some d \<Rightarrow> d < b)
      then Some (foldl (\<lambda>a c. b * a + the (radixDigit c)) 0 ds)
      else None)"

definition nonDecimalIntegerLiteral :: "string \<Rightarrow> nat option" where
  "nonDecimalIntegerLiteral s =
     (if take 2 s = ''0x'' \<or> take 2 s = ''0X'' then radixVal 16 (drop 2 s)
      else if take 2 s = ''0o'' \<or> take 2 s = ''0O'' then radixVal 8 (drop 2 s)
      else if take 2 s = ''0b'' \<or> take 2 s = ''0B'' then radixVal 2 (drop 2 s)
      else None)"

text \<open>
  The unary plus on a string, \<open>+s\<close>: white space is trimmed on both sides, the empty
  string is \<open>0\<close>, and the whole of what is left must be one numeric literal.
\<close>

definition toNumber :: "string \<Rightarrow> jsnum" where
  "toNumber s =
     (let t = trim s in
      if t = [] then Fin 0
      else
        (case nonDecimalIntegerLiteral t of
           Some n \<Rightarrow> roundToDouble (of_nat n)
         | None \<Rightarrow>
             (case strDecimalLiteral t of
                None \<Rightarrow> NaN
              | Some (v, r) \<Rightarrow> if r = [] then v else NaN)))"

text \<open>\<open>s.replace(/[cs]/g, "")\<close>: every character of the class \<open>cs\<close> is removed.\<close>

definition removeAll_chars :: "string \<Rightarrow> string \<Rightarrow> string" where
  "removeAll_chars cs s = filter (\<lambda>c. c \<notin> set cs) s"

section \<open>Records of the aggregates payload (App.tsx)\<close>

text \<open>\<open>number | string\<close>, the type of \<open>avgPayback\<close> and of the chart's parameter values.\<close>

datatype jsval = JNum jsnum | JStr string

record Recommendation =
  arc :: string
  description :: string
  avgSavings :: string
  avgCost :: string
  avgPayback :: jsval
  implementationRate :: string
  recommended :: jsnum
  top_rank :: nat

datatype OrderField = AvgSavings | AvgCost | AvgPayback | ImplRate | Recommended

text \<open>\<open>numericFor\<close> (App.tsx, lines 32-42): one row to the numeric value of the chosen column.\<close>

fun numericFor :: "Recommendation \<Rightarrow> OrderField \<Rightarrow> jsnum" where
  "numericFor r AvgSavings = parseFloat (removeAll_chars ''$,'' (avgSavings r))"
| "numericFor r AvgCost = parseFloat (removeAll_chars ''$,'' (avgCost r))"
| "numericFor r AvgPayback =
     (case avgPayback r of JNum n \<Rightarrow> n | JStr s \<Rightarrow> parseFloat s)"
| "numericFor r ImplRate = parseFloat (implementationRate r)"
| "numericFor r Recommended = recommended r"

section \<open>Chart values (DataVisualizer.tsx)\<close>

text \<open>
  \<open>formatValue\<close> (lines 116-117): a number is itself, a string is parsed after
  \<open>$\<close>, \<open>,\<close> and \<open>%\<close> are removed.
\<close>

fun formatValue :: "jsval \<Rightarrow> jsnum" where
  "formatValue (JNum n) = n"
| "formatValue (JStr s) = parseFloat (removeAll_chars ''$,%'' s)"

section \<open>Arrays\<close>

text \<open>
  \<open>xs.sort(cmp)\<close> is stable; a comparator result that is not greater than zero,
  NaN among them (read as \<open>+0\<close>), keeps the earlier element first. For a comparator
  that is consistent the result is the stable insertion below; for one that is not,
  ECMAScript leaves the order to the implementation, and every theorem about the order
  excludes NaN keys.
\<close>

fun insertBy :: "('a \<Rightarrow> 'a \<Rightarrow> jsnum) \<Rightarrow> 'a \<Rightarrow> 'a list \<Rightarrow> 'a list" where
  "insertBy cmp x [] = [x]"
| "insertBy cmp x (y # ys) =
     (if jsgt (cmp x y) (Fin 0) then y # insertBy cmp x ys else x # y # ys)"

definition sort_cmp :: "('a \<Rightarrow> 'a \<Rightarrow> jsnum) \<Rightarrow> 'a list \<Rightarrow> 'a list" where
  "sort_cmp cmp xs = foldr (insertBy cmp) xs []"

text \<open>
  An argument of \<open>slice\<close> as an index into a list of length \<open>len\<close>: NaN is \<open>0\<close>, the
  value is truncated towards zero, a negative index counts from the end, and the result
  is clamped to \<open>0..len\<close>.
\<close>

fun relativeIndex :: "nat \<Rightarrow> jsnum \<Rightarrow> nat" where
  "relativeIndex len NaN = 0"
| "relativeIndex len NInf = 0"
| "relativeIndex len PInf = len"
| "relativeIndex len (Fin q) =
     (let k = (if 0 \<le> q then \<lfloor>q\<rfloor> else \<lceil>q\<rceil>) in
      if k < 0 then nat (max (int len + k) 0) else min (nat k) len)"

definition slice :: "'a list \<Rightarrow> jsnum \<Rightarrow> jsnum \<Rightarrow> 'a list" where
  "slice xs start end =
     take (relativeIndex (length xs) end - relativeIndex (length xs) start)
          (drop (relativeIndex (length xs) start) xs)"

section \<open>The filter and table screen (App.tsx)\<close>

text \<open>
  The comparator of both sorts (lines 98 and 132):
  \<open>(a,b) => numericFor(b,orderBy) - numericFor(a,orderBy)\<close>.
\<close>

definition descendingBy :: "OrderField \<Rightarrow> Recommendation \<Rightarrow> Recommendation \<Rightarrow> jsnum" where
  "descendingBy f a b = jssub (numericFor b f) (numericFor a f)"

text \<open>\<open>.map((r,i) => ({...r, top: i+1}))\<close> (lines 99 and 134).\<close>

definition withRank :: "Recommendation list \<Rightarrow> Recommendation list" where
  "withRank xs = map (\<lambda>(i, r). r\<lparr>top_rank := i + 1\<rparr>) (enumerate 0 xs)"

record AppState =
  centers :: "string list"
  states :: "string list"
  years :: "jsnum list"
  center :: string
  stateUS :: string
  yearOp :: string
  yearVal :: string
  minSavings :: string
  minCost :: string
  showTop :: string
  orderBy :: OrderField
  minReco :: string
  arcCode :: string
  rows :: "Recommendation list"
  filtered :: "Recommendation list"
  pageSize :: int
  page :: int
  showGraph :: bool
  loading :: bool
  err :: "string option"
  graphCenter :: string
  graphState :: string
  graphTopCount :: jsnum

definition initialState :: AppState where
  "initialState =
     \<lparr>centers = [], states = [], years = [],
      center = [], stateUS = [], yearOp = ''='', yearVal = [],
      minSavings = [], minCost = [], showTop = ''10'', orderBy = ImplRate,
      minReco = ''10'', arcCode = [],
      rows = [], filtered = [], pageSize = 10, page = 1, showGraph = False,
      loading = False, err = None,
      graphCenter = [], graphState = [], graphTopCount = Fin 10\<rparr>"

text \<open>
  What \<open>await (await fetch(url)).json()\<close> gives: an exception with its message (no
  connection, a body that is not JSON), or the decoded body.
\<close>

datatype 'a fetched = Threw string | Json 'a

record OptionsJson =
  meta_success :: bool
  meta_error :: "string option"
  meta_centers :: "string list"
  meta_states :: "string list"
  meta_years :: "jsnum list"

record AggregatesJson =
  json_success :: bool
  json_error :: "string option"
  json_data :: "Recommendation list"

text \<open>
  The effect that loads the dropdown options (lines 78-88). Its \<open>catch\<close> block is empty: a thrown
  error, the one of \<open>success: false\<close> too, leaves the state as it was.
\<close>

definition optionsEffect :: "OptionsJson fetched \<Rightarrow> AppState \<Rightarrow> AppState" where
  "optionsEffect res st =
     (case res of
        Threw msg \<Rightarrow> st
      | Json meta \<Rightarrow>
          if \<not> meta_success meta then st
          else st\<lparr>centers := meta_centers meta, states := meta_states meta,
                  years := meta_years meta\<rparr>)"

text \<open>
  \<open>fetchAggregates\<close> (lines 91-106), in two halves: what is set before the request, and what is set
  when it has settled (\<open>try\<close>, \<open>catch\<close> and \<open>finally\<close>).
\<close>

definition fetchAggregates_begin :: "AppState \<Rightarrow> AppState" where
  "fetchAggregates_begin st = st\<lparr>loading := True, err := None\<rparr>"

text \<open>The message of \<open>new Error(json.error || "API error")\<close>.\<close>

definition apiErrorMessage :: "AggregatesJson \<Rightarrow> string" where
  "apiErrorMessage json =
     (case json_error json of
        None \<Rightarrow> ''API error''
      | Some e \<Rightarrow> if e \<noteq> [] then e else ''API error'')"

definition fetchAggregates_settle :: "AggregatesJson fetched \<Rightarrow> AppState \<Rightarrow> AppState" where
  "fetchAggregates_settle res st =
     (case res of
        Threw msg \<Rightarrow> st\<lparr>err := Some msg, loading := False\<rparr>
      | Json json \<Rightarrow>
          if \<not> json_success json then st\<lparr>err := Some (apiErrorMessage json), loading := False\<rparr>
          else
            (let ranked = withRank (sort_cmp (descendingBy (orderBy st)) (json_data json)) in
             st\<lparr>rows := ranked, filtered := ranked, page := 1, showGraph := False,
                loading := False\<rparr>))"

definition fetchAggregates :: "AggregatesJson fetched \<Rightarrow> AppState \<Rightarrow> AppState" where
  "fetchAggregates res st = fetchAggregates_settle res (fetchAggregates_begin st)"

subsection \<open>The query string\<close>

definition AGG_URL :: string where
  "AGG_URL = ''http://127.0.0.1:5000/aggregates''"

text \<open>
  \<open>URLSearchParams.toString()\<close>: names and values in the
  \<open>application/x-www-form-urlencoded\<close> form, joined by \<open>=\<close> and \<open>&\<close>. Letters,
  digits and \<open>*-._\<close> stay, the space becomes \<open>+\<close>, every other character is the
  \<open>%XX\<close> of its UTF-8 bytes.
\<close>

definition hexDigit :: "nat \<Rightarrow> char" where
  "hexDigit n = ''0123456789ABCDEF'' ! (n mod 16)"

definition percentByte :: "nat \<Rightarrow> string" where
  "percentByte b = [CHR ''%'', hexDigit (b div 16), hexDigit b]"

definition urlencodeChar :: "char \<Rightarrow> string" where
  "urlencodeChar c =
     (if c \<in> set ''ABCDEFGHIJKLMNOPQRSTUVWXYZabcdefghijklmnopqrstuvwxyz0123456789*-._''
      then [c]
      else if c = CHR '' '' then ''+''
      else if (of_char c :: nat) < 128 then percentByte (of_char c)
      else percentByte (192 + of_char c div 64) @ percentByte (128 + of_char c mod 64))"

definition urlencode :: "string \<Rightarrow> string" where
  "urlencode s = concat (map urlencodeChar s)"

fun joinAmp :: "string list \<Rightarrow> string" where
  "joinAmp [] = []"
| "joinAmp [x] = x"
| "joinAmp (x # y # zs) = x @ ''&'' @ joinAmp (y # zs)"

definition paramsToString :: "(string \<times> string) list \<Rightarrow> string" where
  "paramsToString ps = joinAmp (map (\<lambda>(k, v). urlencode k @ ''='' @ urlencode v) ps)"

text \<open>
  The parameters \<open>handleSearch\<close> appends (lines 112-116), in its order; a JavaScript string is truthy
  when it is not empty.
\<close>

definition searchParams :: "AppState \<Rightarrow> (string \<times> string) list" where
  "searchParams st =
     (if center st \<noteq> [] then [(''center'', center st)] else []) @
     (if stateUS st \<noteq> [] then [(''state'', stateUS st)] else []) @
     (if yearVal st \<noteq> [] then [(''fiscal_year'', yearOp st @ yearVal st)] else []) @
     (if arcCode st \<noteq> [] then [(''arc'', trim (arcCode st))] else [])"

definition searchQuery :: "AppState \<Rightarrow> string" where
  "searchQuery st = ''?'' @ paramsToString (searchParams st)"

subsection \<open>The query string, read back\<close>

text \<open>
  What the request carries is the string. Which parameters the string holds is what a
  parser of the \<open>application/x-www-form-urlencoded\<close> form reads from it (the URL
  standard's, the one of \<open>URLSearchParams\<close>): the string after \<open>?\<close> is cut at every
  \<open>&\<close>, empty pieces are dropped, each piece is cut at its first \<open>=\<close>, a \<open>+\<close> is a
  space, \<open>%XX\<close> is a byte, and the bytes are UTF-8. A character is one of the 256 of
  \<open>char\<close>: bytes that are not the UTF-8 of one of them are read as \<open>?\<close>.
\<close>

fun splitOn :: "char \<Rightarrow> string \<Rightarrow> string list" where
  "splitOn c [] = [[]]"
| "splitOn c (x # xs) =
     (if x = c then [] # splitOn c xs
      else (case splitOn c xs of [] \<Rightarrow> [[x]] | p # ps \<Rightarrow> (x # p) # ps))"

text \<open>\<open>%XX\<close> with two hexadecimal digits is a byte; any other character is its own byte.\<close>

fun percentDecode :: "string \<Rightarrow> nat list" where
  "percentDecode (c # h # l # r) =
     (if c = CHR ''%'' then
        (case (radixDigit h, radixDigit l) of
           (Some a, Some b) \<Rightarrow> (16 * a + b) # percentDecode r
         | _ \<Rightarrow> of_char c # percentDecode (h # l # r))
      else of_char c # percentDecode (h # l # r))"
| "percentDecode (c # r) = of_char c # percentDecode r"
| "percentDecode [] = []"

fun utf8Decode :: "nat list \<Rightarrow> string" where
  "utf8Decode [] = []"
| "utf8Decode [b] = [if b < 128 then char_of b else CHR ''?'']"
| "utf8Decode (b # t # r) =
     (if b < 128 then char_of b # utf8Decode (t # r)
      else if (b = 194 \<or> b = 195) \<and> 128 \<le> t \<and> t < 192
        then char_of ((b - 192) * 64 + (t - 128)) # utf8Decode r
      else CHR ''?'' # utf8Decode (t # r))"

definition decodeComponent :: "string \<Rightarrow> string" where
  "decodeComponent s =
     utf8Decode (percentDecode (map (\<lambda>c. if c = CHR ''+'' then CHR '' '' else c) s))"

definition parseQuery :: "string \<Rightarrow> (string \<times> string) list" where
  "parseQuery q =
     map (\<lambda>s. (decodeComponent (takeWhile (\<lambda>c. c \<noteq> CHR ''='') s),
                decodeComponent (drop 1 (dropWhile (\<lambda>c. c \<noteq> CHR ''='') s))))
       (filter (\<lambda>s. s \<noteq> [])
          (splitOn (CHR ''&'') (case q of [] \<Rightarrow> [] | c # r \<Rightarrow> if c = CHR ''?'' then r else q)))"

text \<open>The UTF-8 bytes of a character: one byte under 128, two from there on.\<close>

definition utf8Bytes :: "char \<Rightarrow> nat list" where
  "utf8Bytes c =
     (if (of_char c :: nat) < 128 then [of_char c]
      else [192 + of_char c div 64, 128 + of_char c mod 64])"

subsection \<open>Search, reset, pagination\<close>

text \<open>
  The updater \<open>handleSearch\<close> passes to \<open>setFiltered\<close> (lines 120-135): the three filters, the sort, the
  Show Top cut and the new ranks, with the filter values of the render that ran the
  search.
\<close>

definition clientFilter :: "AppState \<Rightarrow> Recommendation list \<Rightarrow> Recommendation list" where
  "clientFilter st prev =
     withRank
       (slice
          (sort_cmp (descendingBy (orderBy st))
             (filter (\<lambda>r. minCost st = [] \<or>
                           jsge (parseFloat (removeAll_chars ''$,'' (avgCost r))) (toNumber (minCost st)))
                (filter (\<lambda>r. minSavings st = [] \<or>
                              jsge (parseFloat (removeAll_chars ''$,'' (avgSavings r)))
                                   (toNumber (minSavings st)))
                   (filter (\<lambda>r. jsge (recommended r) (toNumber (minReco st))) prev))))
          (Fin 0) (toNumber (showTop st)))"

text \<open>
  The callbacks of the three \<open>filter\<close> calls (lines 122-130) as one predicate: a record
  stays when it passes all three.
\<close>

definition passesFilters :: "AppState \<Rightarrow> Recommendation \<Rightarrow> bool" where
  "passesFilters st r =
     (jsge (recommended r) (toNumber (minReco st)) \<and>
      (minSavings st = [] \<or>
         jsge (parseFloat (removeAll_chars ''$,'' (avgSavings r))) (toNumber (minSavings st))) \<and>
      (minCost st = [] \<or>
         jsge (parseFloat (removeAll_chars ''$,'' (avgCost r))) (toNumber (minCost st))))"

text \<open>
  \<open>handleSearch\<close> (lines 111-138); \<open>fetch\<close> is the network, from the URL to what the
  request gives. The filter values and the sort field are those of the render in which
  the search was started, for the request and for the filter that follows it.
\<close>

definition handleSearch :: "(string \<Rightarrow> AggregatesJson fetched) \<Rightarrow> AppState \<Rightarrow> AppState" where
  "handleSearch fetch st =
     (let st1 = fetchAggregates (fetch (AGG_URL @ searchQuery st)) st in
      st1\<lparr>filtered := clientFilter st (filtered st1), page := 1, showGraph := False\<rparr>)"

definition resetFilters :: "AppState \<Rightarrow> AppState" where
  "resetFilters st =
     st\<lparr>center := [], stateUS := [], yearOp := ''='', yearVal := [],
        minSavings := [], minCost := [], showTop := ''10'', orderBy := ImplRate,
        minReco := ''10'', arcCode := [],
        filtered := rows st, page := 1, showGraph := False\<rparr>"

text \<open>\<open>Math.ceil(filtered.length / pageSize) || 1\<close> (line 150).\<close>

definition totalPages :: "AppState \<Rightarrow> jsnum" where
  "totalPages st =
     (let t = jsceil (jsdiv (Fin (of_nat (length (filtered st)))) (Fin (of_int (pageSize st)))) in
      if truthy t then t else Fin 1)"

text \<open>The rows of the current page (\<open>slice\<close> in the source, lines 151-154).\<close>

definition pageSlice :: "AppState \<Rightarrow> Recommendation list" where
  "pageSlice st =
     slice (filtered st)
       (Fin (of_int ((page st - 1) * pageSize st)))
       (Fin (of_int ((page st - 1) * pageSize st + pageSize st)))"

subsection \<open>What is rendered\<close>

datatype view =
    LoadingView
  | ErrorView string
  | TableView "Recommendation list" int jsnum
  | GraphView "Recommendation list"

text \<open>
  The two early returns (lines 157-158) come before the screen itself; \<open>if (err)\<close> is taken for a
  message that is not the empty string.
\<close>

definition render :: "AppState \<Rightarrow> view" where
  "render st =
     (if loading st then LoadingView
      else
        (case err st of
           Some msg \<Rightarrow>
             if msg \<noteq> [] then ErrorView msg
             else if \<not> showGraph st then TableView (pageSlice st) (page st) (totalPages st)
             else GraphView (filtered st)
         | None \<Rightarrow>
             if \<not> showGraph st then TableView (pageSlice st) (page st) (totalPages st)
             else GraphView (filtered st)))"

subsection \<open>The screen as a transition system\<close>

text \<open>
  Every handler of the screen is an event. The two requests of the mount are events
  with what the network gave; a search carries the network it runs against.
\<close>

datatype event =
    OptionsFetched "OptionsJson fetched"
  | AggregatesFetched "AggregatesJson fetched"
  | SetCenter string
  | SetStateUS string
  | SetYearOp string
  | SetYearVal string
  | SetMinSavings string
  | SetMinCost string
  | SetShowTop string
  | SetOrderBy OrderField
  | SetMinReco string
  | SetArcCode string
  | Search "string \<Rightarrow> AggregatesJson fetched"
  | Reset
  | GenerateGraph
  | BackToTable
  | SetPageSize int
  | PrevPage
  | NextPage

text \<open>
  The controls exist only while the screen itself is rendered, and a dropdown whose
  options are fixed gives one of them.
\<close>

definition controlsShown :: "AppState \<Rightarrow> bool" where
  "controlsShown st =
     (case render st of TableView t p n \<Rightarrow> True | GraphView g \<Rightarrow> True | _ \<Rightarrow> False)"

fun enabled :: "event \<Rightarrow> AppState \<Rightarrow> bool" where
  "enabled (OptionsFetched res) st = True"
| "enabled (AggregatesFetched res) st = True"
| "enabled (SetYearOp s) st = (controlsShown st \<and> s \<in> set [''='', ''<='', ''>=''])"
| "enabled (SetShowTop s) st = (controlsShown st \<and> s \<in> set [''10'', ''25'', ''50''])"
| "enabled (SetMinReco s) st = (controlsShown st \<and> s \<in> set [''5'', ''10'', ''15''])"
| "enabled GenerateGraph st = (controlsShown st \<and> filtered st \<noteq> [])"
| "enabled BackToTable st = (controlsShown st \<and> showGraph st)"
| "enabled (SetPageSize n) st = (controlsShown st \<and> \<not> showGraph st \<and> n \<in> set [10, 20, 50])"
| "enabled PrevPage st = (controlsShown st \<and> \<not> showGraph st \<and> page st \<noteq> 1)"
| "enabled NextPage st =
     (controlsShown st \<and> \<not> showGraph st \<and> Fin (of_int (page st)) \<noteq> totalPages st)"
| "enabled ev st = controlsShown st"

fun fire :: "event \<Rightarrow> AppState \<Rightarrow> AppState" where
  "fire (OptionsFetched res) st = optionsEffect res st"
| "fire (AggregatesFetched res) st = fetchAggregates res st"
| "fire (SetCenter s) st = st\<lparr>center := s\<rparr>"
| "fire (SetStateUS s) st = st\<lparr>stateUS := s\<rparr>"
| "fire (SetYearOp s) st = st\<lparr>yearOp := s\<rparr>"
| "fire (SetYearVal s) st = st\<lparr>yearVal := s\<rparr>"
| "fire (SetMinSavings s) st = st\<lparr>minSavings := s\<rparr>"
| "fire (SetMinCost s) st = st\<lparr>minCost := s\<rparr>"
| "fire (SetShowTop s) st = st\<lparr>showTop := s\<rparr>"
| "fire (SetOrderBy f) st = st\<lparr>orderBy := f\<rparr>"
| "fire (SetMinReco s) st = st\<lparr>minReco := s\<rparr>"
| "fire (SetArcCode s) st = st\<lparr>arcCode := s\<rparr>"
| "fire (Search fetch) st = handleSearch fetch st"
| "fire Reset st = resetFilters st"
| "fire GenerateGraph st =
     st\<lparr>graphCenter := center st, graphState := stateUS st,
        graphTopCount := toNumber (showTop st), showGraph := True\<rparr>"
| "fire BackToTable st = st\<lparr>showGraph := False\<rparr>"
| "fire (SetPageSize n) st = st\<lparr>pageSize := n, page := 1\<rparr>"
| "fire PrevPage st = st\<lparr>page := page st - 1\<rparr>"
| "fire NextPage st = st\<lparr>page := page st + 1\<rparr>"

inductive reachable :: "AppState \<Rightarrow> bool" where
  reachable_init: "reachable initialState"
| reachable_fire: "reachable st \<Longrightarrow> enabled ev st \<Longrightarrow> reachable (fire ev st)"

section \<open>The chart screen (DataVisualizer.tsx)\<close>

text \<open>
  Modelled from the spec: the declarations of \<open>PlantData\<close>, \<open>ParameterValue\<close>,
  \<open>SearchParameter\<close>, \<open>YearFilter\<close> and \<open>YearRange\<close> are in \<open>types/data\<close>,
  which is not among the sources. The spec has one record shape, the recommendation
  with its code, description, two currency strings, payback (number or string),
  percentage string, count and rank. The component reads a record by key
  (\<open>item[selectedParameter]\<close>, \<open>Object.keys(firstItem)\<close>), so a record is its list of
  keys and values in the order of the keys; \<open>formatValue\<close> shows that a value is a
  number or a string, and a key that is absent reads as \<open>undefined\<close>, here \<open>None\<close>.
  The year filter is one of \<open>'all'\<close>, \<open>'single'\<close> and \<open>'custom'\<close>, the three values
  the component compares it with, and a year range has a \<open>start\<close> and an \<open>end\<close>.
\<close>

type_synonym PlantData = "(string \<times> jsval) list"

text \<open>The record the table screen hands over, with the keys of \<open>Recommendation\<close>.\<close>

definition plantDataOf :: "Recommendation \<Rightarrow> PlantData" where
  "plantDataOf r =
     [(''arc'', JStr (arc r)),
      (''description'', JStr (description r)),
      (''avgSavings'', JStr (avgSavings r)),
      (''avgCost'', JStr (avgCost r)),
      (''avgPayback'', avgPayback r),
      (''implementationRate'', JStr (implementationRate r)),
      (''recommended'', JNum (recommended r)),
      (''top'', JNum (Fin (of_nat (top_rank r))))]"

datatype YearFilter = AllYears | SingleYear | CustomRange

record YearRange =
  range_start :: jsnum
  range_end :: jsnum

record VisualizerState =
  selectedParameter :: string
  yearFilter :: YearFilter
  selectedYear :: jsnum
  yearRange :: YearRange
  filteredData :: "PlantData list"

definition initialVisualizer :: VisualizerState where
  "initialVisualizer =
     \<lparr>selectedParameter = [], yearFilter = AllYears, selectedYear = Fin 0,
      yearRange = \<lparr>range_start = Fin 0, range_end = Fin 0\<rparr>, filteredData = []\<rparr>"

text \<open>A value where a number is expected: \<open>undefined\<close> is NaN, a string is converted.\<close>

fun numberOf :: "jsval option \<Rightarrow> jsnum" where
  "numberOf None = NaN"
| "numberOf (Some (JNum n)) = n"
| "numberOf (Some (JStr s)) = toNumber s"

text \<open>\<open>v === n\<close> for a number \<open>n\<close>.\<close>

fun strictEqualsNumber :: "jsval option \<Rightarrow> jsnum \<Rightarrow> bool" where
  "strictEqualsNumber (Some (JNum m)) n = (m = n \<and> m \<noteq> NaN)"
| "strictEqualsNumber v n = False"

text \<open>
  The keys of the first record that can be charted. Every value of the model is a
  number or a string, so the test \<open>typeof firstItem[key] !== 'object'\<close> holds.
\<close>

definition availableParameters :: "PlantData list \<Rightarrow> string list" where
  "availableParameters data =
     (case data of
        [] \<Rightarrow> []
      | firstItem # rest \<Rightarrow>
          filter (\<lambda>key. key \<noteq> ''year'' \<and> key \<noteq> ''description'' \<and> key \<noteq> ''arc'' \<and> key \<noteq> ''top'')
                 (map fst firstItem))"

text \<open>
  The years of the dropdowns: the \<open>years\<close> of the props when there are some, else the
  distinct \<open>year\<close> values of the data. The source sorts the list; the order is left
  out, since the state is set from its maximum and minimum only.
\<close>

definition availableYears :: "jsnum list \<Rightarrow> PlantData list \<Rightarrow> jsval option list" where
  "availableYears yrs data =
     (if yrs \<noteq> [] then map (\<lambda>y. Some (JNum y)) yrs
      else remdups (map (\<lambda>i. map_of i ''year'') data))"

text \<open>
  One round of the two effects (lines 92-101 and 104-113). Both read the state of the render they belong to, and
  their updates are applied together.
\<close>

definition selectionEffect ::
  "PlantData list \<Rightarrow> jsnum list \<Rightarrow> VisualizerState \<Rightarrow> VisualizerState \<Rightarrow> VisualizerState" where
  "selectionEffect data yrs seen st =
     (let st1 =
        (case availableParameters data of
           [] \<Rightarrow> st
         | p # ps \<Rightarrow> if selectedParameter seen = [] then st\<lparr>selectedParameter := p\<rparr> else st)
      in
        if availableYears yrs data \<noteq> [] then
          st1\<lparr>selectedYear := Math_max (map numberOf (availableYears yrs data)),
              yearRange :=
                \<lparr>range_start = Math_min (map numberOf (availableYears yrs data)),
                 range_end = Math_max (map numberOf (availableYears yrs data))\<rparr>\<rparr>
        else st1)"

definition yearEffect ::
  "PlantData list \<Rightarrow> VisualizerState \<Rightarrow> VisualizerState \<Rightarrow> VisualizerState" where
  "yearEffect data seen st =
     (if data = [] then st
      else
        st\<lparr>filteredData :=
             (case yearFilter seen of
                AllYears \<Rightarrow> data
              | SingleYear \<Rightarrow>
                  filter (\<lambda>i. strictEqualsNumber (map_of i ''year'') (selectedYear seen)) data
              | CustomRange \<Rightarrow>
                  filter (\<lambda>i. jsge (numberOf (map_of i ''year'')) (range_start (yearRange seen)) \<and>
                               jsle (numberOf (map_of i ''year'')) (range_end (yearRange seen)))
                         data)\<rparr>)"

definition runEffects :: "PlantData list \<Rightarrow> jsnum list \<Rightarrow> VisualizerState \<Rightarrow> VisualizerState" where
  "runEffects data yrs st = yearEffect data st (selectionEffect data yrs st st)"

text \<open>The component once mounted: the initial state after \<open>n\<close> rounds of its effects.\<close>

definition mounted :: "nat \<Rightarrow> PlantData list \<Rightarrow> jsnum list \<Rightarrow> VisualizerState" where
  "mounted n data yrs = (runEffects data yrs ^^ n) initialVisualizer"

subsection \<open>Chart data\<close>

text \<open>
  \<open>truncate\<close> of the source (line 119), here \<open>truncateTo\<close>. Its ellipsis is
  U+2026, one code unit of the source; in the 8-bit strings of the model it is this one
  character.
\<close>

definition ellipsis :: char where
  "ellipsis = CHR 0x85"

definition truncateTo :: "string \<Rightarrow> nat \<Rightarrow> string" where
  "truncateTo s n = (if length s > n then take n s @ [ellipsis] else s)"

text \<open>
  \<open>truncate(item.description)\<close> on what the key holds. Reading \<open>length\<close> of
  \<open>undefined\<close> throws (the result \<open>None\<close>); a number has no \<open>length\<close>, the test is
  false and the number comes back.
\<close>

fun shortDescriptionOf :: "jsval option \<Rightarrow> jsval option" where
  "shortDescriptionOf None = None"
| "shortDescriptionOf (Some (JStr s)) = Some (JStr (truncateTo s 15))"
| "shortDescriptionOf (Some (JNum n)) = Some (JNum n)"

text \<open>
  One chart point (lines 123-128), \<open>{...item, id, shortDescription, [selectedParameter]: ...}\<close>: a key
  the record has keeps its place and takes the new value, a new key goes to the end, and
  the keys are written in the order of the literal. \<open>formatValue(undefined)\<close> throws.
\<close>

definition chartPoint :: "string \<Rightarrow> nat \<Rightarrow> PlantData \<Rightarrow> PlantData option" where
  "chartPoint p idx item =
     (case shortDescriptionOf (map_of item ''description'') of
        None \<Rightarrow> None
      | Some sd \<Rightarrow>
          (case map_of item p of
             None \<Rightarrow> None
           | Some v \<Rightarrow>
               Some (AList.update p (JNum (formatValue v))
                      (AList.update ''shortDescription'' sd
                        (AList.update ''id'' (JNum (Fin (of_nat (idx + 1)))) item)))))"

text \<open>The memoized transform \<open>chartData\<close> (lines 121-130); \<open>None\<close> when a point throws.\<close>

definition chartData :: "PlantData list \<Rightarrow> string \<Rightarrow> PlantData list option" where
  "chartData fd p = those (map (\<lambda>(idx, item). chartPoint p idx item) (enumerate 0 fd))"

text \<open>
  \<open>i[selectedParameter] as number\<close> on a chart point; the transform has put a number
  under that key.
\<close>

definition pointValue :: "string \<Rightarrow> PlantData \<Rightarrow> jsnum" where
  "pointValue p i = (case map_of i p of Some (JNum n) \<Rightarrow> n | _ \<Rightarrow> NaN)"

definition highestValue :: "PlantData list \<Rightarrow> string \<Rightarrow> jsnum" where
  "highestValue cd p = Math_max (map (pointValue p) cd)"

definition avgValue :: "PlantData list \<Rightarrow> string \<Rightarrow> jsnum" where
  "avgValue cd p =
     jsdiv (foldl (\<lambda>a i. jsadd a (pointValue p i)) (Fin 0) cd) (Fin (of_nat (length cd)))"

text \<open>
  What the body of the component computes before it returns (lines 121-135): the chart
  data, the highest value and the average, in this order and on every render.
\<close>

record Computed =
  computed_chartData :: "PlantData list"
  computed_highestValue :: jsnum
  computed_avgValue :: jsnum

definition computed :: "VisualizerState \<Rightarrow> Computed option" where
  "computed st =
     (case chartData (filteredData st) (selectedParameter st) of
        None \<Rightarrow> None
      | Some cd \<Rightarrow>
          Some \<lparr>computed_chartData = cd,
                computed_highestValue = highestValue cd (selectedParameter st),
                computed_avgValue = avgValue cd (selectedParameter st)\<rparr>)"

text \<open>
  What the component returns (lines 196-348): the message without data, the controls
  alone while the filtered data is empty, else the chart with its three statistics.
\<close>

datatype chartView =
    NoDataView
  | ControlsView
  | ChartView "PlantData list" jsnum jsnum nat

definition DataVisualizer :: "PlantData list \<Rightarrow> VisualizerState \<Rightarrow> chartView option" where
  "DataVisualizer data st =
     (case computed st of
        None \<Rightarrow> None
      | Some c \<Rightarrow>
          if data = [] then Some NoDataView
          else if filteredData st = [] then Some ControlsView
          else Some (ChartView (computed_chartData c) (computed_highestValue c)
                       (computed_avgValue c) (length (computed_chartData c))))"

subsection \<open>Ranks and order of a list\<close>

text \<open>The ranks of a list are \<open>1..N\<close> in the order of the list.\<close>

definition denseRanks :: "Recommendation list \<Rightarrow> bool" where
  "denseRanks xs = (map top_rank xs = [1..<length xs + 1])"

text \<open>
  A list is in descending order of the numeric value of a column: every row has a value
  \<open>>=\<close> the value of every later row.
\<close>

definition sortedDescendingBy :: "OrderField \<Rightarrow> Recommendation list \<Rightarrow> bool" where
  "sortedDescendingBy f xs = sorted_wrt (\<lambda>a b. jsge (numericFor a f) (numericFor b f)) xs"

section \<open>Two rows of the payload\<close>

text \<open>Two rows as the backend sends them, used where a statement is checked on data.\<close>

definition rowA :: Recommendation where
  "rowA =
     \<lparr>arc = ''2.7142'', description = ''Utilize higher efficiency lamps and/or ballasts'',
      avgSavings = ''$1,234'', avgCost = ''$5,000'', avgPayback = JNum (Fin 4),
      implementationRate = ''50.0%'', recommended = Fin 20, top_rank = 0\<rparr>"

definition rowB :: Recommendation where
  "rowB =
     \<lparr>arc = ''2.4236'', description = ''Eliminate leaks'',
      avgSavings = ''$9,800'', avgCost = ''$900'', avgPayback = JStr ''0.1'',
      implementationRate = ''12.5%'', recommended = Fin 12, top_rank = 0\<rparr>"

text \<open>A backend that answers every request with these two rows.\<close>

definition twoRows :: "string \<Rightarrow> AggregatesJson fetched" where
  "twoRows url = Json \<lparr>json_success = True, json_error = None, json_data = [rowB, rowA]\<rparr>"

text \<open>A backend that cannot be reached at one URL, and answers with the two rows at every other.\<close>

definition downAt :: "string \<Rightarrow> string \<Rightarrow> AggregatesJson fetched" where
  "downAt u url = (if url = u then Threw ''Failed to fetch'' else twoRows url)"

text \<open>
  A backend that answers every request with twelve rows, recommended 10 to 21 times:
  more than the smallest Show Top value.
\<close>

definition twelveRows :: "string \<Rightarrow> AggregatesJson fetched" where
  "twelveRows url =
     Json \<lparr>json_success = True, json_error = None,
           json_data = map (\<lambda>n. rowA\<lparr>recommended := Fin (of_nat n)\<rparr>) [10 ..< 22]\<rparr>"

section \<open>The formats of the payload\<close>

text \<open>
  The interface \<open>Recommendation\<close> names the format of its string columns in its
  comments: \<open>$#,###\<close> for the two currency columns, a dollar sign and the digits in
  groups of three, and \<open>##.#%\<close> for the rate, one decimal and a percent sign. These
  are the two formats as functions of the value: a whole number of dollars, and a
  number of tenths of a percent.
\<close>

definition digitChar :: "nat \<Rightarrow> char" where
  "digitChar d = ''0123456789'' ! d"

fun decimal :: "nat \<Rightarrow> string" where
  "decimal n = (if n < 10 then [digitChar n] else decimal (n div 10) @ [digitChar (n mod 10)])"

declare decimal.simps [simp del]

definition threeDigits :: "nat \<Rightarrow> string" where
  "threeDigits n = [digitChar (n div 100 mod 10), digitChar (n div 10 mod 10), digitChar (n mod 10)]"

fun grouped :: "nat \<Rightarrow> string" where
  "grouped n =
     (if n < 1000 then decimal n else grouped (n div 1000) @ '','' @ threeDigits (n mod 1000))"

declare grouped.simps [simp del]

definition currency :: "nat \<Rightarrow> string" where
  "currency n = CHR ''$'' # grouped n"

definition percentage :: "nat \<Rightarrow> string" where
  "percentage t = decimal (t div 10) @ ''.'' @ [digitChar (t mod 10)] @ ''%''"

text \<open>
  The column \<open>f\<close> of the row \<open>r\<close> holds \<open>n\<close> in the format of the column (dollars,
  or tenths of a percent), and the number that \<open>n\<close> stands for.
\<close>

fun holdsFormatted :: "OrderField \<Rightarrow> Recommendation \<Rightarrow> nat \<Rightarrow> bool" where
  "holdsFormatted AvgSavings r n = (avgSavings r = currency n)"
| "holdsFormatted AvgCost r n = (avgCost r = currency n)"
| "holdsFormatted ImplRate r n = (implementationRate r = percentage n)"
| "holdsFormatted f r n = False"

fun formattedValue :: "OrderField \<Rightarrow> nat \<Rightarrow> rat" where
  "formattedValue ImplRate n = of_nat n / 10"
| "formattedValue f n = of_nat n"

text \<open>A string of decimal digits, at least one.\<close>

definition digitString :: "string \<Rightarrow> bool" where
  "digitString ds = (ds \<noteq> [] \<and> (\<forall>c \<in> set ds. isDigit c))"

section \<open>Properties\<close>

subsection \<open>Evaluation of the parsers\<close>

lemmas parse_defs =
  parseFloat_def removeAll_chars_def strDecimalLiteral_def strUnsignedDecimalLiteral_def
  isWhiteSpace_def isDigit_def digitsVal_def digitVal_def exponentPart_def pow10_def

subsection \<open>Rounding to a double\<close>

lemma pow2_nat: "0 \<le> k \<Longrightarrow> (2::rat) powi k = 2 ^ nat k"
  by (simp add: power_int_nonneg_exp)

lemma pow2_neg: "0 \<le> k \<Longrightarrow> (2::rat) powi (- k) = 1 / 2 ^ nat k"
  by (simp add: power_int_minus_divide power_int_nonneg_exp)

lemma binade_bounds:
  assumes "0 < q"
  shows "2 powi binade q \<le> q \<and> q < 2 powi (binade q + 1)"
proof (cases "1 \<le> q")
  case True
  define n where "n = \<lfloor>q\<rfloor>"
  have n: "0 < n" using True by (simp add: n_def)
  from bitlen_bounds [OF n] have lo: "2 ^ nat (bitlen n - 1) \<le> n" and hi: "n < 2 ^ nat (bitlen n)"
    by simp_all
  have b1: "1 \<le> bitlen n" using n by (simp add: bitlen_alt_def)
  have "(2::rat) ^ nat (bitlen n - 1) \<le> of_int n"
    using lo by (metis of_int_le_iff of_int_numeral of_int_power)
  also have "\<dots> \<le> q" by (simp add: n_def)
  finally have A: "(2::rat) ^ nat (bitlen n - 1) \<le> q" .
  have "n + 1 \<le> 2 ^ nat (bitlen n)" using hi by simp
  then have "(of_int (n + 1) :: rat) \<le> 2 ^ nat (bitlen n)"
    by (metis of_int_le_iff of_int_numeral of_int_power)
  moreover have "q < of_int (n + 1)" unfolding n_def by linarith
  ultimately have B: "q < (2::rat) ^ nat (bitlen n)" by linarith
  have "binade q = bitlen n - 1" using True by (simp add: binade_def n_def)
  then show ?thesis using A B b1 by (simp add: pow2_nat)
next
  case False
  define m where "m = \<lceil>1 / q\<rceil> - 1"
  have "1 < 1 / q" using False assms by simp
  then have m: "0 < m" unfolding m_def by linarith
  from bitlen_bounds [OF m] have lo: "2 ^ nat (bitlen m - 1) \<le> m" and hi: "m < 2 ^ nat (bitlen m)"
    by simp_all
  have b1: "1 \<le> bitlen m" using m by (simp add: bitlen_alt_def)
  have "m + 1 \<le> 2 ^ nat (bitlen m)" using hi by simp
  then have "(of_int (m + 1) :: rat) \<le> 2 ^ nat (bitlen m)"
    by (metis of_int_le_iff of_int_numeral of_int_power)
  moreover have "1 / q \<le> of_int (m + 1)" unfolding m_def by simp
  ultimately have "1 / q \<le> (2::rat) ^ nat (bitlen m)" by linarith
  then have A: "1 / 2 ^ nat (bitlen m) \<le> q"
    using assms by (simp add: field_simps)
  have "(2::rat) ^ nat (bitlen m - 1) \<le> of_int m"
    using lo by (metis of_int_le_iff of_int_numeral of_int_power)
  moreover have "of_int m < 1 / q" unfolding m_def by linarith
  ultimately have "(2::rat) ^ nat (bitlen m - 1) < 1 / q" by linarith
  then have B: "q < 1 / 2 ^ nat (bitlen m - 1)"
    using assms by (simp add: field_simps)
  have bq: "binade q = - bitlen m" using False by (simp add: binade_def m_def)
  have "(2::rat) powi (binade q) = 1 / 2 ^ nat (bitlen m)"
    unfolding bq using b1 by (simp add: pow2_neg)
  moreover have "(2::rat) powi (binade q + 1) = 1 / 2 ^ nat (bitlen m - 1)"
  proof -
    have "binade q + 1 = - (bitlen m - 1)" using bq by simp
    then show ?thesis using b1 by (simp only: pow2_neg)
  qed
  ultimately show ?thesis using A B by simp
qed


lemma pow2_less_iff: "(2::rat) powi m < 2 powi n \<longleftrightarrow> m < n"
proof
  assume lt: "(2::rat) powi m < 2 powi n"
  show "m < n"
  proof (rule ccontr)
    assume "\<not> m < n"
    then have "n \<le> m" by simp
    then have "(2::rat) powi n \<le> 2 powi m" by (intro power_int_increasing) simp_all
    with lt show False by simp
  qed
next
  assume "m < n"
  then show "(2::rat) powi m < 2 powi n" by (intro power_int_strict_increasing) simp_all
qed

lemma binade_less:
  assumes "0 < q" and "q < 2 powi g"
  shows "binade q < g"
proof -
  from binade_bounds [OF assms(1)] have "2 powi binade q \<le> q" ..
  with assms(2) have "(2::rat) powi binade q < 2 powi g" by simp
  then show ?thesis by (simp add: pow2_less_iff)
qed

lemma binade_mono:
  assumes "0 < x" and "x \<le> y"
  shows "binade x \<le> binade y"
proof -
  have y: "0 < y" using assms by simp
  from binade_bounds [OF y] have "y < 2 powi (binade y + 1)" ..
  with assms(2) have "x < 2 powi (binade y + 1)" by simp
  from binade_less [OF assms(1) this] show ?thesis by simp
qed

lemma roundHalfEven_bounds: "\<lfloor>s\<rfloor> \<le> roundHalfEven s \<and> roundHalfEven s \<le> \<lfloor>s\<rfloor> + 1"
  by (simp add: roundHalfEven_def)

lemma roundHalfEven_of_int: "roundHalfEven (of_int k) = k"
  by (simp add: roundHalfEven_def)

lemma roundHalfEven_mono:
  assumes "s \<le> t"
  shows "roundHalfEven s \<le> roundHalfEven t"
proof (cases "\<lfloor>s\<rfloor> < \<lfloor>t\<rfloor>")
  case True
  have "roundHalfEven s \<le> \<lfloor>s\<rfloor> + 1" using roundHalfEven_bounds [of s] by simp
  also have "\<dots> \<le> \<lfloor>t\<rfloor>" using True by simp
  also have "\<dots> \<le> roundHalfEven t" using roundHalfEven_bounds [of t] by simp
  finally show ?thesis .
next
  case False
  moreover have "\<lfloor>s\<rfloor> \<le> \<lfloor>t\<rfloor>" using assms by (rule floor_mono)
  ultimately have eq: "\<lfloor>s\<rfloor> = \<lfloor>t\<rfloor>" by simp
  have "s - of_int \<lfloor>t\<rfloor> \<le> t - of_int \<lfloor>t\<rfloor>" using assms by simp
  then show ?thesis unfolding roundHalfEven_def eq by auto
qed

lemma pow2_quotient: "e \<le> g \<Longrightarrow> (2::rat) powi g / 2 powi e = of_int (2 ^ nat (g - e))"
proof -
  assume "e \<le> g"
  have "(2::rat) powi g = 2 powi (g - e) * 2 powi e"
    by (simp flip: power_int_add)
  moreover have "(2::rat) powi (g - e) = 2 ^ nat (g - e)"
    using \<open>e \<le> g\<close> by (simp add: pow2_nat)
  ultimately show ?thesis by simp
qed

lemma nearest_le_pow2:
  assumes "quantum q \<le> g" and "q \<le> 2 powi g"
  shows "nearest q \<le> 2 powi g"
proof -
  let ?e = "quantum q"
  have pos: "(0::rat) < 2 powi ?e" by simp
  have "q / 2 powi ?e \<le> 2 powi g / 2 powi ?e"
    using assms(2) pos by (simp add: divide_right_mono)
  also have "\<dots> = of_int (2 ^ nat (g - ?e))" by (rule pow2_quotient [OF assms(1)])
  finally have "roundHalfEven (q / 2 powi ?e) \<le> 2 ^ nat (g - ?e)"
    using roundHalfEven_mono roundHalfEven_of_int by metis
  then have "(of_int (roundHalfEven (q / 2 powi ?e)) :: rat) \<le> of_int (2 ^ nat (g - ?e))"
    by (simp only: of_int_le_iff)
  then have "nearest q \<le> of_int (2 ^ nat (g - ?e)) * 2 powi ?e"
    unfolding nearest_def using pos by (simp add: mult_right_mono)
  also have "\<dots> = 2 powi g"
    using pow2_quotient [OF assms(1)] pos by (simp add: field_simps)
  finally show ?thesis .
qed

lemma pow2_le_nearest:
  assumes "quantum q \<le> g" and "2 powi g \<le> q"
  shows "2 powi g \<le> nearest q"
proof -
  let ?e = "quantum q"
  have pos: "(0::rat) < 2 powi ?e" by simp
  have "of_int (2 ^ nat (g - ?e)) = (2::rat) powi g / 2 powi ?e"
    by (rule pow2_quotient [OF assms(1), symmetric])
  also have "\<dots> \<le> q / 2 powi ?e"
    using assms(2) pos by (simp add: divide_right_mono)
  finally have "2 ^ nat (g - ?e) \<le> roundHalfEven (q / 2 powi ?e)"
    using roundHalfEven_mono roundHalfEven_of_int by metis
  then have "(of_int (2 ^ nat (g - ?e)) :: rat) \<le> of_int (roundHalfEven (q / 2 powi ?e))"
    by (simp only: of_int_le_iff)
  then have "of_int (2 ^ nat (g - ?e)) * 2 powi ?e \<le> nearest q"
    unfolding nearest_def using pos by (simp add: mult_right_mono)
  moreover have "of_int (2 ^ nat (g - ?e)) * 2 powi ?e = (2::rat) powi g"
    using pow2_quotient [OF assms(1)] pos by (simp add: field_simps)
  ultimately show ?thesis by simp
qed

lemma nearest_mono:
  assumes "0 < x" and "x \<le> y"
  shows "nearest x \<le> nearest y"
proof -
  have y: "0 < y" using assms by simp
  have bm: "binade x \<le> binade y" by (rule binade_mono [OF assms])
  then have qm: "quantum x \<le> quantum y" by (simp add: quantum_def)
  show ?thesis
  proof (cases "quantum x = quantum y")
    case True
    have pos: "(0::rat) < 2 powi quantum y" by simp
    have "x / 2 powi quantum y \<le> y / 2 powi quantum y"
      using assms(2) pos by (simp add: divide_right_mono)
    then have "roundHalfEven (x / 2 powi quantum y) \<le> roundHalfEven (y / 2 powi quantum y)"
      by (rule roundHalfEven_mono)
    then have "(of_int (roundHalfEven (x / 2 powi quantum y)) :: rat)
               \<le> of_int (roundHalfEven (y / 2 powi quantum y))"
      by (simp only: of_int_le_iff)
    then show ?thesis unfolding nearest_def True using pos by (simp add: mult_right_mono)
  next
    case False
    with qm have lt: "quantum x < quantum y" by simp
    then have qy: "quantum y = binade y - 52" and bl: "binade x < binade y"
      by (auto simp: quantum_def)
    let ?g = "binade y"
    have gx: "quantum x \<le> ?g" using lt qy by simp
    have gy: "quantum y \<le> ?g" using qy by simp
    from binade_bounds [OF assms(1)] have "x < 2 powi (binade x + 1)" ..
    also have "\<dots> \<le> 2 powi ?g" using bl by (intro power_int_increasing) simp_all
    finally have "x \<le> 2 powi ?g" by simp
    from nearest_le_pow2 [OF gx this] have "nearest x \<le> 2 powi ?g" .
    also have "\<dots> \<le> nearest y"
      using binade_bounds [OF y] pow2_le_nearest [OF gy] by simp
    finally show ?thesis .
  qed
qed

lemma nearest_nonneg: "0 \<le> q \<Longrightarrow> 0 \<le> nearest q"
proof -
  assume "0 \<le> q"
  then have "0 \<le> q / 2 powi quantum q" by simp
  then have "0 \<le> \<lfloor>q / 2 powi quantum q\<rfloor>" by simp
  with roundHalfEven_bounds [of "q / 2 powi quantum q"]
  have "0 \<le> roundHalfEven (q / 2 powi quantum q)" by linarith
  then show ?thesis unfolding nearest_def by simp
qed

lemma nearest_exact:
  assumes "k < 2 ^ 53" and "- 1074 \<le> j" and "0 < k"
  shows "nearest (of_nat k * 2 powi j) = of_nat k * 2 powi j"
proof -
  let ?q = "of_nat k * (2::rat) powi j"
  have pos: "0 < ?q" using assms(3) by simp
  have "(of_nat k :: rat) < 2 ^ 53"
    using assms(1) by (metis of_nat_less_iff of_nat_numeral of_nat_power)
  then have "?q < 2 ^ 53 * 2 powi j" by (simp add: mult_strict_right_mono)
  also have "\<dots> = 2 powi (53 + j)" by (simp add: power_int_add)
  finally have "binade ?q < 53 + j" by (rule binade_less [OF pos])
  then have e: "quantum ?q \<le> j" using assms(2) by (simp add: quantum_def)
  have "?q / 2 powi quantum ?q = of_nat k * (2 powi j / 2 powi quantum ?q)" by simp
  also have "\<dots> = of_nat k * of_int (2 ^ nat (j - quantum ?q))"
    by (simp only: pow2_quotient [OF e])
  also have "\<dots> = of_int (int k * 2 ^ nat (j - quantum ?q))" by simp
  finally have s: "?q / 2 powi quantum ?q = of_int (int k * 2 ^ nat (j - quantum ?q))" .
  have "nearest ?q = of_int (int k * 2 ^ nat (j - quantum ?q)) * 2 powi quantum ?q"
    unfolding nearest_def s roundHalfEven_of_int ..
  also have "\<dots> = ?q / 2 powi quantum ?q * 2 powi quantum ?q" by (simp only: s)
  also have "\<dots> = ?q" by simp
  finally show ?thesis .
qed

lemma nearest_pos_exact:
  assumes "0 < k" and "k < 2 ^ 53" and "- 1074 \<le> j" and "j \<le> 970"
  shows "roundToDouble (of_nat k * 2 powi j) = Fin (of_nat k * 2 powi j)"
proof -
  let ?q = "of_nat k * (2::rat) powi j"
  have pos: "0 < ?q" using assms(1) by simp
  have n: "nearest ?q = ?q" by (rule nearest_exact [OF assms(2) assms(3) assms(1)])
  have "(of_nat k :: rat) < 2 ^ 53"
    using assms(2) by (metis of_nat_less_iff of_nat_numeral of_nat_power)
  then have "?q < 2 ^ 53 * 2 powi j" by (simp add: mult_strict_right_mono)
  also have "\<dots> = 2 powi (53 + j)" by (simp add: power_int_add)
  also have "\<dots> \<le> 2 powi 1024" using assms(4) by (intro power_int_increasing) simp_all
  finally have "?q < 2 ^ 1024" by simp
  then show ?thesis using pos n by (simp add: roundToDouble_def)
qed

lemma roundToDouble_nat: "k < 2 ^ 53 \<Longrightarrow> roundToDouble (of_nat k) = Fin (of_nat k)"
proof (cases "k = 0")
  case True
  then show ?thesis by (simp add: roundToDouble_def)
next
  case False
  assume "k < 2 ^ 53"
  with False nearest_pos_exact [of k 0] show ?thesis by simp
qed

lemma roundToDouble_numeral:
  "numeral n < (9007199254740992::nat) \<Longrightarrow> roundToDouble (numeral n) = Fin (numeral n)"
  using roundToDouble_nat [of "numeral n"] by simp

lemma roundToDouble_0: "roundToDouble 0 = Fin 0"
  by (simp add: roundToDouble_def)

lemma roundToDouble_1: "roundToDouble 1 = Fin 1"
  using roundToDouble_nat [of 1] by simp

lemma roundToDouble_25_2: "roundToDouble (25 / 2) = Fin (25 / 2)"
  using nearest_pos_exact [of 25 "- 1"] by simp

lemmas roundToDouble_simps =
  roundToDouble_0 roundToDouble_1 roundToDouble_numeral roundToDouble_25_2

lemma roundToDouble_nonneg:
  assumes "0 \<le> q"
  shows "roundToDouble q = PInf \<or> (\<exists>r. roundToDouble q = Fin r \<and> 0 \<le> r)"
proof (cases "q = 0")
  case True
  then show ?thesis by (simp add: roundToDouble_def)
next
  case False
  with assms have "0 < q" by simp
  moreover have "0 \<le> nearest \<bar>q\<bar>" by (rule nearest_nonneg) simp
  ultimately show ?thesis by (simp add: roundToDouble_def)
qed

lemma roundToDouble_mono:
  assumes "0 \<le> x" and "x \<le> y"
  shows "jsle (roundToDouble x) (roundToDouble y)"
proof (cases "x = 0")
  case True
  from roundToDouble_nonneg [of y] assms have
    "roundToDouble y = PInf \<or> (\<exists>r. roundToDouble y = Fin r \<and> 0 \<le> r)" by simp
  then show ?thesis using True by (auto simp: roundToDouble_0 jsle_def)
next
  case False
  with assms have x: "0 < x" and y: "0 < y" by simp_all
  from nearest_mono [OF x assms(2)] have "nearest x \<le> nearest y" .
  then show ?thesis using x y by (auto simp: roundToDouble_def jsle_def)
qed

text \<open>
  Doubles are multiples of \<open>2^-1074\<close>, so the difference of two doubles is zero or at
  least that far from zero, and rounding it keeps its sign.
\<close>

lemma pow2_grid: "- 1074 \<le> e \<Longrightarrow> (2::rat) powi e = of_int (2 ^ nat (e + 1074)) * 2 powi (- 1074)"
proof -
  assume e: "- 1074 \<le> e"
  have "(2::rat) powi e / 2 powi (- 1074) = of_int (2 ^ nat (e - (- 1074)))"
    using e by (rule pow2_quotient)
  moreover have "(2::rat) powi (- 1074) \<noteq> 0" by simp
  ultimately show ?thesis by (simp add: field_simps)
qed

lemma nearest_grid: "\<exists>m. nearest q = of_int m * 2 powi (- 1074)"
proof -
  have "- 1074 \<le> quantum q" by (simp add: quantum_def)
  from pow2_grid [OF this] have
    "nearest q = of_int (roundHalfEven (q / 2 powi quantum q) * 2 ^ nat (quantum q + 1074))
                 * 2 powi (- 1074)"
    unfolding nearest_def by simp
  then show ?thesis by blast
qed

lemma roundToDouble_grid:
  assumes "roundToDouble x = Fin p"
  shows "\<exists>m. p = of_int m * 2 powi (- 1074)"
proof -
  from nearest_grid [of "\<bar>x\<bar>"] obtain m where m: "nearest \<bar>x\<bar> = of_int m * 2 powi (- 1074)" by blast
  have "p = 0 \<or> p = nearest \<bar>x\<bar> \<or> p = - nearest \<bar>x\<bar>"
    using assms by (auto simp: roundToDouble_def split: if_splits)
  then consider "p = of_int 0 * 2 powi (- 1074)" | "p = of_int m * 2 powi (- 1074)"
    | "p = of_int (- m) * 2 powi (- 1074)"
    using m by auto
  then show ?thesis by cases blast+
qed

lemma roundToDouble_pos:
  assumes "2 powi (- 1074) \<le> q"
  shows "roundToDouble q = PInf \<or> (\<exists>r. roundToDouble q = Fin r \<and> 0 < r)"
proof -
  have u: "(0::rat) < 2 powi (- 1074)" by simp
  from u assms have q: "0 < q" by (rule less_le_trans)
  have "nearest (of_nat 1 * 2 powi (- 1074)) = of_nat 1 * 2 powi (- 1074)"
    by (rule nearest_exact) simp_all
  then have "nearest (2 powi (- 1074)) = 2 powi (- 1074)" by simp
  moreover have "nearest (2 powi (- 1074)) \<le> nearest q" using u assms by (rule nearest_mono)
  ultimately have "0 < nearest q" using u by simp
  then show ?thesis using q by (simp add: roundToDouble_def)
qed

lemma roundToDouble_minus: "roundToDouble (- q) = jsneg (roundToDouble q)"
  by (simp add: roundToDouble_def)

lemma roundToDouble_sign:
  assumes "d = of_int m * 2 powi (- 1074)"
  shows "jsgt (roundToDouble d) (Fin 0) = (0 < d) \<and> jslt (roundToDouble d) (Fin 0) = (d < 0)"
proof -
  have u: "(0::rat) < 2 powi (- 1074)" by simp
  consider "m = 0" | "1 \<le> m" | "m \<le> - 1" by linarith
  then show ?thesis
  proof cases
    case 1
    then show ?thesis using assms by (simp add: roundToDouble_0 jsgt_def)
  next
    case 2
    then have "(1::rat) \<le> of_int m" by simp
    then have "1 * 2 powi (- 1074) \<le> d" unfolding assms using u by (intro mult_right_mono) simp_all
    then have d: "2 powi (- 1074) \<le> d" by simp
    from u d have "0 < d" by (rule less_le_trans)
    with roundToDouble_pos [OF d] show ?thesis by (auto simp: jsgt_def)
  next
    case 3
    then have "(1::rat) \<le> of_int (- m)" by simp
    then have "1 * 2 powi (- 1074) \<le> (of_int (- m) :: rat) * 2 powi (- 1074)"
      using u by (intro mult_right_mono) simp_all
    then have d: "2 powi (- 1074) \<le> - d" unfolding assms by simp
    from u d have "0 < - d" by (rule less_le_trans)
    with roundToDouble_pos [OF d] roundToDouble_minus [of "- d"] show ?thesis
      by (auto simp: jsgt_def)
  qed
qed

lemma toDouble_sub_sign:
  assumes "a = roundToDouble x" and "b = roundToDouble y"
  shows "jsgt (toDouble (jssub b a)) (Fin 0) = jsgt (jssub b a) (Fin 0) \<and>
         jslt (toDouble (jssub b a)) (Fin 0) = jslt (jssub b a) (Fin 0)"
proof (cases "\<exists>p r. a = Fin p \<and> b = Fin r")
  case True
  then obtain p r where pr: "a = Fin p" "b = Fin r" by blast
  from roundToDouble_grid [of x p] roundToDouble_grid [of y r] assms pr
  obtain m n where "p = of_int m * 2 powi (- 1074)" "r = of_int n * 2 powi (- 1074)" by auto
  then have "r - p = of_int (n - m) * 2 powi (- 1074)" by (simp add: algebra_simps)
  from roundToDouble_sign [OF this] show ?thesis
    using pr by (simp add: jssub_def toDouble_def jsgt_def)
next
  case False
  then show ?thesis by (cases a; cases b) (simp_all add: jssub_def toDouble_def)
qed

subsection \<open>Known formats\<close>

text \<open>
  C4. The numeric coercions read the known currency and percentage formats:
  \<open>"$1,234"\<close> is 1234 and \<open>"12.5%"\<close> is 12.5, for \<open>numericFor\<close> (on the currency
  columns and on the rate column) and for \<open>formatValue\<close>.
\<close>

theorem coercion_known_formats:
  "numericFor (r\<lparr>avgSavings := ''$1,234''\<rparr>) AvgSavings = Fin 1234 \<and>
   numericFor (r\<lparr>avgCost := ''$1,234''\<rparr>) AvgCost = Fin 1234 \<and>
   numericFor (r\<lparr>implementationRate := ''12.5%''\<rparr>) ImplRate = Fin (25 / 2) \<and>
   formatValue (JStr ''$1,234'') = Fin 1234 \<and>
   formatValue (JStr ''12.5%'') = Fin (25 / 2)"
  by (simp add: parse_defs roundToDouble_simps)

subsection \<open>The query string\<close>

text \<open>
  Reading back what \<open>URLSearchParams.toString()\<close> wrote gives the parameters that were
  appended: no name and no value is lost or changed by the encoding.
\<close>

lemma splitOn_without: "c \<notin> set x \<Longrightarrow> splitOn c x = [x]"
  by (induction x) auto

lemma splitOn_append: "c \<notin> set x \<Longrightarrow> splitOn c (x @ c # r) = x # splitOn c r"
  by (induction x) auto

lemma splitOn_joinAmp:
  "(\<And>x. x \<in> set xs \<Longrightarrow> CHR ''&'' \<notin> set x) \<Longrightarrow> xs \<noteq> [] \<Longrightarrow>
   splitOn (CHR ''&'') (joinAmp xs) = xs"
proof (induction xs rule: joinAmp.induct)
  case 1
  then show ?case by simp
next
  case (2 x)
  then show ?case by (simp add: splitOn_without)
next
  case (3 x y zs)
  have "CHR ''&'' \<notin> set x" using "3.prems"(1) by simp
  moreover have "splitOn (CHR ''&'') (joinAmp (y # zs)) = y # zs"
    using "3.prems"(1) by (intro "3.IH") simp_all
  ultimately show ?case using splitOn_append [of "CHR ''&''" x "joinAmp (y # zs)"] by simp
qed

lemma sixteen_cases:
  "d < 16 \<Longrightarrow> d = 0 \<or> d = 1 \<or> d = 2 \<or> d = 3 \<or> d = 4 \<or> d = 5 \<or> d = 6 \<or> d = 7 \<or> d = 8 \<or>
     d = 9 \<or> d = 10 \<or> d = 11 \<or> d = 12 \<or> d = 13 \<or> d = 14 \<or> d = (15::nat)"
  by arith

lemma hexDigit_props:
  "radixDigit (hexDigit n) = Some (n mod 16) \<and> hexDigit n \<noteq> CHR ''+'' \<and>
   hexDigit n \<noteq> CHR ''&'' \<and> hexDigit n \<noteq> CHR ''='' \<and>
   CHR ''&'' \<noteq> hexDigit n \<and> CHR ''='' \<noteq> hexDigit n"
proof -
  have "n mod 16 < 16" by simp
  from sixteen_cases [OF this] show ?thesis
    unfolding hexDigit_def by (auto simp: radixDigit_def isDigit_def digitVal_def)
qed

lemma percentDecode_plain: "c \<noteq> CHR ''%'' \<Longrightarrow> percentDecode (c # r) = of_char c # percentDecode r"
  by (cases r rule: percentDecode.cases) simp_all

lemma percentDecode_byte:
  assumes "b < 256"
  shows "percentDecode (map (\<lambda>c. if c = CHR ''+'' then CHR '' '' else c) (percentByte b) @ r)
         = b # percentDecode r"
proof -
  have "b div 16 < 16" using assms by simp
  then have "16 * (b div 16 mod 16) + b mod 16 = b" by simp
  then show ?thesis
    using hexDigit_props [of "b div 16"] hexDigit_props [of b]
    by (simp add: percentByte_def)
qed

lemma of_char_less_256: "(of_char c :: nat) < 256"
proof -
  have "(of_char c :: nat) mod 256 = of_char c" by simp
  moreover have "(of_char c :: nat) mod 256 < 256" by (rule mod_less_divisor) simp
  ultimately show ?thesis by simp
qed

lemma safe_ascii:
  "c \<in> set ''ABCDEFGHIJKLMNOPQRSTUVWXYZabcdefghijklmnopqrstuvwxyz0123456789*-._'' \<Longrightarrow>
   (of_char c :: nat) < 128 \<and> c \<noteq> CHR ''%'' \<and> c \<noteq> CHR ''+'' \<and> c \<noteq> CHR ''&'' \<and> c \<noteq> CHR ''=''"
  by auto

lemma percentDecode_urlencodeChar:
  "percentDecode (map (\<lambda>c. if c = CHR ''+'' then CHR '' '' else c) (urlencodeChar c) @ r)
   = utf8Bytes c @ percentDecode r"
proof (cases "c \<in> set ''ABCDEFGHIJKLMNOPQRSTUVWXYZabcdefghijklmnopqrstuvwxyz0123456789*-._''")
  case True
  from safe_ascii [OF True] True show ?thesis
    by (simp add: urlencodeChar_def utf8Bytes_def percentDecode_plain del: set_simps)
next
  case False
  show ?thesis
  proof (cases "c = CHR '' ''")
    case True
    then show ?thesis by (simp add: urlencodeChar_def utf8Bytes_def percentDecode_plain)
  next
    case space: False
    show ?thesis
    proof (cases "(of_char c :: nat) < 128")
      case True
      then have "(of_char c :: nat) < 256" by simp
      from percentDecode_byte [OF this] True False space show ?thesis
        by (simp add: urlencodeChar_def utf8Bytes_def del: set_simps)
    next
      case big: False
      have n: "(of_char c :: nat) < 256" by (rule of_char_less_256)
      then have b1: "192 + (of_char c :: nat) div 64 < 256" by arith
      have b2: "128 + (of_char c :: nat) mod 64 < 256" by simp
      from percentDecode_byte [OF b1] percentDecode_byte [OF b2] big False space show ?thesis
        by (simp add: urlencodeChar_def utf8Bytes_def del: set_simps)
    qed
  qed
qed

lemma percentDecode_urlencode:
  "percentDecode (map (\<lambda>c. if c = CHR ''+'' then CHR '' '' else c) (urlencode s))
   = concat (map utf8Bytes s)"
proof (induction s)
  case Nil
  show ?case by (simp add: urlencode_def)
next
  case (Cons c s)
  then show ?case
    using percentDecode_urlencodeChar
            [of c "map (\<lambda>c. if c = CHR ''+'' then CHR '' '' else c) (urlencode s)"]
    by (simp add: urlencode_def)
qed

lemma utf8Decode_ascii: "b < 128 \<Longrightarrow> utf8Decode (b # r) = char_of b # utf8Decode r"
  by (cases r) simp_all

lemma utf8Decode_utf8Bytes: "utf8Decode (utf8Bytes c @ r) = c # utf8Decode r"
proof (cases "(of_char c :: nat) < 128")
  case True
  then show ?thesis by (simp add: utf8Bytes_def utf8Decode_ascii)
next
  case False
  have n: "(of_char c :: nat) < 256" by (rule of_char_less_256)
  with False have d: "(of_char c :: nat) div 64 = 2 \<or> (of_char c :: nat) div 64 = 3" by arith
  have v: "(of_char c :: nat) div 64 * 64 + of_char c mod 64 = of_char c" by simp
  have "utf8Decode ((192 + of_char c div 64) # (128 + of_char c mod 64) # r)
        = char_of ((of_char c :: nat) div 64 * 64 + of_char c mod 64) # utf8Decode r"
    using d by auto
  then show ?thesis using False by (simp add: utf8Bytes_def v)
qed

lemma utf8Decode_concat: "utf8Decode (concat (map utf8Bytes s)) = s"
proof (induction s)
  case Nil
  show ?case by simp
next
  case (Cons c s)
  then show ?case using utf8Decode_utf8Bytes [of c "concat (map utf8Bytes s)"] by simp
qed

lemma decodeComponent_urlencode: "decodeComponent (urlencode s) = s"
  by (simp add: decodeComponent_def percentDecode_urlencode utf8Decode_concat)

lemma urlencodeChar_plain:
  "x \<in> set (urlencodeChar c) \<Longrightarrow> x \<noteq> CHR ''&'' \<and> x \<noteq> CHR ''=''"
proof (cases "c \<in> set ''ABCDEFGHIJKLMNOPQRSTUVWXYZabcdefghijklmnopqrstuvwxyz0123456789*-._''")
  case True
  assume "x \<in> set (urlencodeChar c)"
  with True safe_ascii [OF True] show ?thesis
    by (simp add: urlencodeChar_def del: set_simps) simp
next
  case False
  assume "x \<in> set (urlencodeChar c)"
  with False show ?thesis
    by (auto simp: urlencodeChar_def percentByte_def simp del: set_simps split: if_splits)
       (simp_all add: hexDigit_props)
qed

lemma urlencode_plain: "CHR ''&'' \<notin> set (urlencode s) \<and> CHR ''='' \<notin> set (urlencode s)"
  using urlencodeChar_plain by (fastforce simp: urlencode_def)

lemma parseQuery_paramsToString: "parseQuery (''?'' @ paramsToString ps) = ps"
proof (cases "ps = []")
  case True
  then show ?thesis by (simp add: parseQuery_def paramsToString_def)
next
  case False
  let ?enc = "\<lambda>(k, v). urlencode k @ CHR ''='' # urlencode v"
  have amp: "CHR ''&'' \<notin> set x" if "x \<in> set (map ?enc ps)" for x
    using that urlencode_plain by auto
  have split: "splitOn (CHR ''&'') (joinAmp (map ?enc ps)) = map ?enc ps"
    using False by (intro splitOn_joinAmp amp) simp_all
  have nonempty: "filter (\<lambda>s. s \<noteq> []) (map ?enc ps) = map ?enc ps"
    by (rule filter_True) auto
  have piece: "(decodeComponent (takeWhile (\<lambda>c. c \<noteq> CHR ''='') (?enc kv)),
                decodeComponent (drop (Suc 0) (dropWhile (\<lambda>c. c \<noteq> CHR ''='') (?enc kv)))) = kv" for kv
  proof (cases kv)
    case (Pair k v)
    have "\<And>x. x \<in> set (urlencode k) \<Longrightarrow> x \<noteq> CHR ''=''" using urlencode_plain [of k] by auto
    then have "takeWhile (\<lambda>c. c \<noteq> CHR ''='') (urlencode k @ CHR ''='' # urlencode v) = urlencode k"
      "dropWhile (\<lambda>c. c \<noteq> CHR ''='') (urlencode k @ CHR ''='' # urlencode v)
       = CHR ''='' # urlencode v"
      by (simp_all add: takeWhile_append2 dropWhile_append2)
    then show ?thesis using Pair by (simp add: decodeComponent_urlencode)
  qed
  have "parseQuery (''?'' @ paramsToString ps)
        = map (\<lambda>s. (decodeComponent (takeWhile (\<lambda>c. c \<noteq> CHR ''='') s),
                     decodeComponent (drop 1 (dropWhile (\<lambda>c. c \<noteq> CHR ''='') s))))
            (map ?enc ps)"
    by (simp add: parseQuery_def paramsToString_def split nonempty)
  also have "\<dots> = map (\<lambda>kv. kv) ps"
    unfolding map_map by (rule map_cong [OF refl]) (simp add: piece)
  finally show ?thesis by simp
qed

lemma parseQuery_searchQuery: "parseQuery (searchQuery st) = searchParams st"
  unfolding searchQuery_def by (rule parseQuery_paramsToString)

text \<open>
  C7. For every filter state, the query string of the search, read back, holds
  \<open>center\<close>, \<open>state\<close>, \<open>fiscal_year\<close> and \<open>arc\<close> exactly when the filter value is
  not empty, once each and in this order, with the filter value as the value, the
  operator followed by the year for \<open>fiscal_year\<close> and the trimmed code for \<open>arc\<close>.
  This string after \<open>AGG_URL\<close> is the URL the search requests: an exception of the
  request at this URL is the error of the search, the rows of an answer at this URL
  are the rows after the search, and what the network gives at any other URL does not
  change the search.
\<close>

theorem search_request_parameters:
  "parseQuery (searchQuery st) =
     (if center st \<noteq> [] then [(''center'', center st)] else []) @
     (if stateUS st \<noteq> [] then [(''state'', stateUS st)] else []) @
     (if yearVal st \<noteq> [] then [(''fiscal_year'', yearOp st @ yearVal st)] else []) @
     (if arcCode st \<noteq> [] then [(''arc'', trim (arcCode st))] else []) \<and>
   map_of (parseQuery (searchQuery st)) ''center''
     = (if center st \<noteq> [] then Some (center st) else None) \<and>
   map_of (parseQuery (searchQuery st)) ''state''
     = (if stateUS st \<noteq> [] then Some (stateUS st) else None) \<and>
   map_of (parseQuery (searchQuery st)) ''fiscal_year''
     = (if yearVal st \<noteq> [] then Some (yearOp st @ yearVal st) else None) \<and>
   map_of (parseQuery (searchQuery st)) ''arc''
     = (if arcCode st \<noteq> [] then Some (trim (arcCode st)) else None) \<and>
   (fetch (AGG_URL @ searchQuery st) = Threw msg \<longrightarrow>
      err (handleSearch fetch st) = Some msg \<and> rows (handleSearch fetch st) = rows st) \<and>
   (fetchJ (AGG_URL @ searchQuery st) = Json json \<and> json_success json \<longrightarrow>
      err (handleSearch fetchJ st) = None \<and>
      rows (handleSearch fetchJ st)
        = withRank (sort_cmp (descendingBy (orderBy st)) (json_data json))) \<and>
   (fetchA (AGG_URL @ searchQuery st) = fetchB (AGG_URL @ searchQuery st) \<longrightarrow>
      handleSearch fetchA st = handleSearch fetchB st)"
proof -
  have "map_of (searchParams st) ''center'' = (if center st \<noteq> [] then Some (center st) else None)"
    "map_of (searchParams st) ''state'' = (if stateUS st \<noteq> [] then Some (stateUS st) else None)"
    "map_of (searchParams st) ''fiscal_year''
       = (if yearVal st \<noteq> [] then Some (yearOp st @ yearVal st) else None)"
    "map_of (searchParams st) ''arc'' = (if arcCode st \<noteq> [] then Some (trim (arcCode st)) else None)"
    by (simp_all add: searchParams_def)
  moreover have "searchParams st =
     (if center st \<noteq> [] then [(''center'', center st)] else []) @
     (if stateUS st \<noteq> [] then [(''state'', stateUS st)] else []) @
     (if yearVal st \<noteq> [] then [(''fiscal_year'', yearOp st @ yearVal st)] else []) @
     (if arcCode st \<noteq> [] then [(''arc'', trim (arcCode st))] else [])"
    by (simp add: searchParams_def)
  moreover have "fetch (AGG_URL @ searchQuery st) = Threw msg \<longrightarrow>
      err (handleSearch fetch st) = Some msg \<and> rows (handleSearch fetch st) = rows st"
    by (simp add: handleSearch_def fetchAggregates_def fetchAggregates_settle_def
          fetchAggregates_begin_def Let_def)
  moreover have "fetchJ (AGG_URL @ searchQuery st) = Json json \<and> json_success json \<longrightarrow>
      err (handleSearch fetchJ st) = None \<and>
      rows (handleSearch fetchJ st)
        = withRank (sort_cmp (descendingBy (orderBy st)) (json_data json))"
    by (simp add: handleSearch_def fetchAggregates_def fetchAggregates_settle_def
          fetchAggregates_begin_def Let_def)
  moreover have "fetchA (AGG_URL @ searchQuery st) = fetchB (AGG_URL @ searchQuery st) \<longrightarrow>
      handleSearch fetchA st = handleSearch fetchB st"
    by (simp add: handleSearch_def)
  ultimately show ?thesis unfolding parseQuery_searchQuery by blast
qed

lemma searchQuery_example:
  "searchQuery (initialState\<lparr>center := ''A B'', yearOp := ''>='', yearVal := ''2020'',
                               arcCode := '' 2.7 ''\<rparr>)
   = ''?center=A+B&fiscal_year=%3E%3D2020&arc=2.7''"
  by (simp add: initialState_def searchQuery_def searchParams_def paramsToString_def urlencode_def
        urlencodeChar_def percentByte_def hexDigit_def trim_def isWhiteSpace_def)

theorem search_request_parameters_witness:
  "downAt ''http://127.0.0.1:5000/aggregates?center=A+B&fiscal_year=%3E%3D2020&arc=2.7''
     (AGG_URL @ searchQuery (initialState\<lparr>center := ''A B'', yearOp := ''>='', yearVal := ''2020'',
                                              arcCode := '' 2.7 ''\<rparr>))
     = Threw ''Failed to fetch'' \<and>
   twoRows (AGG_URL @ searchQuery (initialState\<lparr>center := ''A B'', yearOp := ''>='',
                                                  yearVal := ''2020'', arcCode := '' 2.7 ''\<rparr>))
     = Json \<lparr>json_success = True, json_error = None, json_data = [rowB, rowA]\<rparr> \<and>
   parseQuery ''?center=A+B&fiscal_year=%3E%3D2020&arc=2.7''
     = [(''center'', ''A B''), (''fiscal_year'', ''>=2020''), (''arc'', ''2.7'')] \<and>
   map_of (parseQuery ''?center=A+B&fiscal_year=%3E%3D2020&arc=2.7'') ''state'' = None \<and>
   err (handleSearch
          (downAt ''http://127.0.0.1:5000/aggregates?center=A+B&fiscal_year=%3E%3D2020&arc=2.7'')
          (initialState\<lparr>center := ''A B'', yearOp := ''>='', yearVal := ''2020'',
                          arcCode := '' 2.7 ''\<rparr>))
     = Some ''Failed to fetch'' \<and>
   rows (handleSearch twoRows
          (initialState\<lparr>center := ''A B'', yearOp := ''>='', yearVal := ''2020'',
                          arcCode := '' 2.7 ''\<rparr>))
     = withRank (sort_cmp (descendingBy ImplRate) [rowB, rowA])"
proof -
  let ?st = "initialState\<lparr>center := ''A B'', yearOp := ''>='', yearVal := ''2020'',
                           arcCode := '' 2.7 ''\<rparr>"
  let ?u = "''http://127.0.0.1:5000/aggregates?center=A+B&fiscal_year=%3E%3D2020&arc=2.7''"
  have down: "downAt ?u (AGG_URL @ searchQuery ?st) = Threw ''Failed to fetch''"
    unfolding searchQuery_example by (simp add: downAt_def AGG_URL_def)
  have two: "twoRows (AGG_URL @ searchQuery ?st)
             = Json \<lparr>json_success = True, json_error = None, json_data = [rowB, rowA]\<rparr>"
    by (simp add: twoRows_def)
  have st: "center ?st = ''A B''" "stateUS ?st = []" "yearVal ?st = ''2020''" "yearOp ?st = ''>=''"
    "trim (arcCode ?st) = ''2.7''" "arcCode ?st \<noteq> []" "orderBy ?st = ImplRate"
    by (simp_all add: initialState_def trim_def isWhiteSpace_def)
  from search_request_parameters
         [where st = ?st and fetch = "downAt ?u" and msg = "''Failed to fetch''"
            and fetchJ = twoRows
            and json = "\<lparr>json_success = True, json_error = None, json_data = [rowB, rowA]\<rparr>"
            and fetchA = twoRows and fetchB = twoRows]
       down two
  show ?thesis unfolding searchQuery_example st by simp
qed

subsection \<open>Pagination\<close>

lemma relativeIndex_le: "relativeIndex len a \<le> len"
proof (cases a)
  case (Fin q)
  define k where "k = (if 0 \<le> q then \<lfloor>q\<rfloor> else \<lceil>q\<rceil>)"
  have "relativeIndex len (Fin q) = (if k < 0 then nat (max (int len + k) 0) else min (nat k) len)"
    unfolding k_def relativeIndex.simps Let_def ..
  also have "\<dots> \<le> len" by (simp add: max_def) linarith
  finally show ?thesis using Fin by simp
qed simp_all

lemma relativeIndex_of_int:
  "relativeIndex len (Fin (of_int k)) =
     (if k < 0 then nat (max (int len + k) 0) else min (nat k) len)"
  by (simp add: Let_def)

lemma length_slice_window:
  assumes "0 \<le> d"
  shows "int (length (slice xs (Fin (of_int a)) (Fin (of_int (a + d))))) \<le> d"
proof -
  define i where "i = relativeIndex (length xs) (Fin (of_int a))"
  define j where "j = relativeIndex (length xs) (Fin (of_int (a + d)))"
  have "int j \<le> int i + d"
    using assms unfolding i_def j_def relativeIndex_of_int
    by (simp add: min_def max_def) linarith
  then have "int (j - i) \<le> d" using assms by linarith
  moreover have "length (slice xs (Fin (of_int a)) (Fin (of_int (a + d)))) \<le> j - i"
    unfolding slice_def i_def j_def by (simp del: relativeIndex.simps)
  ultimately show ?thesis by linarith
qed

lemma totalPages_ge_1:
  assumes "0 \<le> pageSize st"
  shows "jsle (Fin 1) (totalPages st)"
proof (cases "pageSize st = 0")
  case True
  then show ?thesis
    by (simp add: totalPages_def Let_def truthy_def jsle_def)
next
  case False
  with assms have pos: "0 < pageSize st" by simp
  show ?thesis
  proof (cases "filtered st = []")
    case True
    then show ?thesis using pos
      by (simp add: totalPages_def Let_def truthy_def jsle_def)
  next
    case False
    then have "0 < (of_nat (length (filtered st)) :: rat) / of_int (pageSize st)"
      using pos by simp
    then have "1 \<le> \<lceil>(of_nat (length (filtered st)) :: rat) / of_int (pageSize st)\<rceil>"
      by linarith
    then show ?thesis using pos
      by (simp add: totalPages_def Let_def truthy_def jsle_def)
  qed
qed

text \<open>
  C9. Pagination is well defined: for every filtered list and every page size (a count,
  so not negative) the number of pages is at least 1, and the page shown has at most
  \<open>pageSize\<close> rows; for the empty list there is one page and it has no row.
\<close>

theorem pagination_well_defined:
  assumes "0 \<le> pageSize st"
  shows "jsle (Fin 1) (totalPages st) \<and>
         int (length (pageSlice st)) \<le> pageSize st \<and>
         (filtered st = [] \<longrightarrow> totalPages st = Fin 1 \<and> pageSlice st = [])"
proof (intro conjI impI)
  show "jsle (Fin 1) (totalPages st)" by (rule totalPages_ge_1 [OF assms])
  show "int (length (pageSlice st)) \<le> pageSize st"
    unfolding pageSlice_def by (rule length_slice_window [OF assms])
next
  assume e: "filtered st = []"
  then show "totalPages st = Fin 1"
    by (simp add: totalPages_def Let_def truthy_def)
  show "pageSlice st = []" using e by (simp add: pageSlice_def slice_def)
qed

theorem pagination_well_defined_witness:
  "0 \<le> pageSize initialState \<and> filtered initialState = [] \<and>
   jsle (Fin 1) (totalPages initialState) \<and>
   int (length (pageSlice initialState)) \<le> pageSize initialState \<and>
   totalPages initialState = Fin 1 \<and> pageSlice initialState = []"
proof -
  have h: "0 \<le> pageSize initialState" by (simp add: initialState_def)
  have e: "filtered initialState = []" by (simp add: initialState_def)
  show ?thesis using pagination_well_defined [OF h] h e by blast
qed

subsection \<open>The Show Top limit\<close>

lemma length_withRank: "length (withRank xs) = length xs"
  by (simp add: withRank_def)

lemma jsle_Fin_mono: "jsle (Fin a) n \<Longrightarrow> b \<le> a \<Longrightarrow> jsle (Fin b) n"
  by (cases n) (auto simp: jsle_def)

lemma relativeIndex_le_arg:
  assumes "jsle (Fin 0) n"
  shows "jsle (Fin (of_nat (relativeIndex len n))) n"
proof (cases n)
  case (Fin q)
  with assms have q: "0 \<le> q" by (simp add: jsle_def)
  then have "0 \<le> \<lfloor>q\<rfloor>" by simp
  then have "(of_nat (nat \<lfloor>q\<rfloor>) :: rat) \<le> q"
    by (metis of_int_floor_le of_nat_nat)
  moreover have "(of_nat (min (nat \<lfloor>q\<rfloor>) len) :: rat) \<le> of_nat (nat \<lfloor>q\<rfloor>)"
    by simp
  ultimately have "(of_nat (min (nat \<lfloor>q\<rfloor>) len) :: rat) \<le> q" by linarith
  then show ?thesis using Fin q \<open>0 \<le> \<lfloor>q\<rfloor>\<close> by (simp add: Let_def jsle_def)
next
  case NaN with assms show ?thesis by (simp add: jsle_def)
next
  case NInf with assms show ?thesis by (simp add: jsle_def)
next
  case PInf then show ?thesis by (simp add: jsle_def)
qed

lemma length_slice_from_0: "length (slice xs (Fin 0) n) \<le> relativeIndex (length xs) n"
  by (simp add: slice_def Let_def)

lemma length_clientFilter:
  assumes "jsle (Fin 0) (toNumber (showTop st))"
  shows "jsle (Fin (of_nat (length (clientFilter st prev)))) (toNumber (showTop st))"
proof -
  let ?ys = "sort_cmp (descendingBy (orderBy st))
             (filter (\<lambda>r. minCost st = [] \<or>
                           jsge (parseFloat (removeAll_chars ''$,'' (avgCost r))) (toNumber (minCost st)))
                (filter (\<lambda>r. minSavings st = [] \<or>
                              jsge (parseFloat (removeAll_chars ''$,'' (avgSavings r)))
                                   (toNumber (minSavings st)))
                   (filter (\<lambda>r. jsge (recommended r) (toNumber (minReco st))) prev)))"
  have "length (clientFilter st prev) \<le> relativeIndex (length ?ys) (toNumber (showTop st))"
    unfolding clientFilter_def length_withRank by (rule length_slice_from_0)
  then have "(of_nat (length (clientFilter st prev)) :: rat)
             \<le> of_nat (relativeIndex (length ?ys) (toNumber (showTop st)))"
    by simp
  with relativeIndex_le_arg [OF assms] show ?thesis by (rule jsle_Fin_mono)
qed

lemma toNumber_10: "toNumber ''10'' = Fin 10"
  by (simp add: toNumber_def trim_def nonDecimalIntegerLiteral_def parse_defs roundToDouble_simps)

subsection \<open>The dropdowns of a reachable state\<close>

text \<open>
  The page size and the Show Top value of a reachable state are options of their
  dropdowns, so the two statements above apply to every state the screen can be in.
\<close>

lemma fetchAggregates_controls:
  "pageSize (fetchAggregates res st) = pageSize st \<and> showTop (fetchAggregates res st) = showTop st"
  by (cases res)
     (simp_all add: fetchAggregates_def fetchAggregates_begin_def fetchAggregates_settle_def Let_def)

lemma fire_dropdowns:
  assumes "pageSize st \<in> {10, 20, 50}" and "showTop st \<in> {''10'', ''25'', ''50''}"
      and "enabled ev st"
  shows "pageSize (fire ev st) \<in> {10, 20, 50} \<and> showTop (fire ev st) \<in> {''10'', ''25'', ''50''}"
proof (cases ev)
  case (OptionsFetched res)
  then show ?thesis using assms by (cases res) (simp_all add: optionsEffect_def)
next
  case (AggregatesFetched res)
  then show ?thesis using assms fetchAggregates_controls [of res st] by simp
next
  case (Search fetch)
  then show ?thesis
    using assms fetchAggregates_controls [of "fetch (AGG_URL @ searchQuery st)" st]
    by (simp add: handleSearch_def Let_def)
next
  case Reset
  then show ?thesis using assms by (simp add: resetFilters_def)
qed (use assms in auto)

lemma reachable_dropdowns:
  "reachable st \<Longrightarrow> pageSize st \<in> {10, 20, 50} \<and> showTop st \<in> {''10'', ''25'', ''50''}"
proof (induction rule: reachable.induct)
  case reachable_init
  show ?case by (simp add: initialState_def)
next
  case (reachable_fire st ev)
  then show ?case using fire_dropdowns by blast
qed

lemma toNumber_25: "toNumber ''25'' = Fin 25"
  by (simp add: toNumber_def trim_def nonDecimalIntegerLiteral_def parse_defs roundToDouble_simps)

lemma toNumber_50: "toNumber ''50'' = Fin 50"
  by (simp add: toNumber_def trim_def nonDecimalIntegerLiteral_def parse_defs roundToDouble_simps)

lemma reachable_hypotheses:
  assumes "reachable st"
  shows "0 \<le> pageSize st \<and> jsle (Fin 0) (toNumber (showTop st))"
  using reachable_dropdowns [OF assms]
  by (auto simp: toNumber_10 toNumber_25 toNumber_50 jsle_def)

subsection \<open>Errors of the two requests\<close>

text \<open>
  C2, as stated, for the request of the filter options: a thrown error is not stored and
  not rendered. After \<open>Failed to fetch\<close> the error state is still empty and the table
  is what is rendered.
\<close>

theorem options_fetch_error_counterexample:
  "err (optionsEffect (Threw ''Failed to fetch'') initialState) = None \<and>
   render (optionsEffect (Threw ''Failed to fetch'') initialState) = TableView [] 1 (Fin 1)"
  by (simp add: optionsEffect_def initialState_def render_def pageSlice_def slice_def
        totalPages_def truthy_def)

text \<open>
  C2, amended. For the request of the aggregates, a thrown error, the one of
  \<open>success: false\<close> among them, is caught and its message stored in the error state;
  the message, when it is not the empty string, is rendered in place of the screen (the
  message of \<open>success: false\<close> never is empty), also when the request is the one of a
  search. An error thrown by the request of the filter options is caught and dropped:
  the state stays as it was.
\<close>

theorem aggregates_fetch_error_shown:
  "err (fetchAggregates (Threw msg) st) = Some msg \<and>
   (msg \<noteq> [] \<longrightarrow> render (fetchAggregates (Threw msg) st) = ErrorView msg) \<and>
   (\<not> json_success json \<longrightarrow>
      err (fetchAggregates (Json json) st) = Some (apiErrorMessage json) \<and>
      apiErrorMessage json \<noteq> [] \<and>
      render (fetchAggregates (Json json) st) = ErrorView (apiErrorMessage json)) \<and>
   (fetch (AGG_URL @ searchQuery st) = Threw msg \<and> msg \<noteq> [] \<longrightarrow>
      render (handleSearch fetch st) = ErrorView msg) \<and>
   optionsEffect (Threw msg) st = st \<and>
   (\<not> meta_success meta \<longrightarrow> optionsEffect (Json meta) st = st)"
  by (auto simp: fetchAggregates_def fetchAggregates_begin_def fetchAggregates_settle_def
        handleSearch_def render_def optionsEffect_def apiErrorMessage_def Let_def
        split: option.splits)

theorem aggregates_fetch_error_shown_witness:
  "''Failed to fetch'' \<noteq> [] \<and>
   \<not> json_success \<lparr>json_success = False, json_error = Some ''no such center'', json_data = []\<rparr> \<and>
   \<not> meta_success \<lparr>meta_success = False, meta_error = None, meta_centers = [],
                    meta_states = [], meta_years = []\<rparr> \<and>
   render (fetchAggregates (Threw ''Failed to fetch'') initialState) = ErrorView ''Failed to fetch'' \<and>
   render (fetchAggregates
             (Json \<lparr>json_success = False, json_error = Some ''no such center'', json_data = []\<rparr>)
             initialState) = ErrorView ''no such center'' \<and>
   optionsEffect
     (Json \<lparr>meta_success = False, meta_error = None, meta_centers = [],
            meta_states = [], meta_years = []\<rparr>) initialState = initialState"
  using aggregates_fetch_error_shown
          [where msg = "''Failed to fetch''" and st = initialState
             and json = "\<lparr>json_success = False, json_error = Some ''no such center'', json_data = []\<rparr>"
             and meta = "\<lparr>meta_success = False, meta_error = None, meta_centers = [],
                          meta_states = [], meta_years = []\<rparr>"]
  by (simp add: apiErrorMessage_def)

subsection \<open>The Arc Code filter\<close>

text \<open>
  C8. Two searches that differ in the Arc Code only and get the same answer from the
  backend end in the same state but for the Arc Code itself, so with the same filtered,
  sorted and ranked list; in the query the Arc Code changes nothing but the \<open>arc\<close>
  parameter.
\<close>

theorem arc_code_not_applied_client_side:
  assumes "fetchA (AGG_URL @ searchQuery (st\<lparr>arcCode := arcA\<rparr>))
           = fetchB (AGG_URL @ searchQuery (st\<lparr>arcCode := arcB\<rparr>))"
  shows "handleSearch fetchA (st\<lparr>arcCode := arcA\<rparr>)
         = (handleSearch fetchB (st\<lparr>arcCode := arcB\<rparr>))\<lparr>arcCode := arcA\<rparr> \<and>
         filtered (handleSearch fetchA (st\<lparr>arcCode := arcA\<rparr>))
         = filtered (handleSearch fetchB (st\<lparr>arcCode := arcB\<rparr>)) \<and>
         filter (\<lambda>(k, v). k \<noteq> ''arc'') (searchParams (st\<lparr>arcCode := arcA\<rparr>))
         = filter (\<lambda>(k, v). k \<noteq> ''arc'') (searchParams (st\<lparr>arcCode := arcB\<rparr>))"
  using assms
  by (cases "fetchB (AGG_URL @ searchQuery (st\<lparr>arcCode := arcB\<rparr>))")
     (auto simp: handleSearch_def fetchAggregates_def fetchAggregates_begin_def
        fetchAggregates_settle_def clientFilter_def searchParams_def Let_def)

theorem arc_code_not_applied_client_side_witness:
  "twoRows (AGG_URL @ searchQuery (initialState\<lparr>arcCode := ''2.2''\<rparr>))
     = twoRows (AGG_URL @ searchQuery (initialState\<lparr>arcCode := []\<rparr>)) \<and>
   filtered (handleSearch twoRows (initialState\<lparr>arcCode := ''2.2''\<rparr>))
     = filtered (handleSearch twoRows (initialState\<lparr>arcCode := []\<rparr>))"
proof -
  have h: "twoRows (AGG_URL @ searchQuery (initialState\<lparr>arcCode := ''2.2''\<rparr>))
             = twoRows (AGG_URL @ searchQuery (initialState\<lparr>arcCode := []\<rparr>))"
    by (simp add: twoRows_def)
  show ?thesis
    using arc_code_not_applied_client_side
            [where fetchA = twoRows and fetchB = twoRows and st = initialState
               and arcA = "''2.2''" and arcB = "[]", OF h] h
    by blast
qed

subsection \<open>The chart of an empty dataset\<close>

lemma runEffects_empty:
  "filteredData (runEffects [] yrs st) = filteredData st \<and>
   selectedParameter (runEffects [] yrs st) = selectedParameter st"
  by (simp add: runEffects_def yearEffect_def selectionEffect_def availableParameters_def Let_def)

lemma mounted_empty:
  "filteredData (mounted n [] yrs) = [] \<and> selectedParameter (mounted n [] yrs) = []"
proof (induction n)
  case 0
  show ?case by (simp add: mounted_def initialVisualizer_def)
next
  case (Suc n)
  then show ?case using runEffects_empty [of yrs "mounted n [] yrs"]
    by (simp add: mounted_def)
qed

lemma chartData_Nil: "chartData [] p = Some []"
  by (simp add: chartData_def enumerate_eq_zip)

lemma computed_empty:
  "filteredData st = [] \<Longrightarrow>
   computed st = Some \<lparr>computed_chartData = [], computed_highestValue = NInf,
                       computed_avgValue = NaN\<rparr>"
  by (simp add: computed_def chartData_Nil highestValue_def avgValue_def Math_max_def)

text \<open>
  C3, as stated, for its last part: the component mounted with no data does compute the
  average, before it reaches the guard, and the divisor is the length of the empty chart
  data: the average is \<open>0 / 0\<close>, which is NaN.
\<close>

theorem empty_dataset_average_counterexample:
  "computed (mounted 1 [] []) =
     Some \<lparr>computed_chartData = [], computed_highestValue = NInf, computed_avgValue = NaN\<rparr> \<and>
   avgValue [] [] = jsdiv (Fin 0) (Fin 0)"
  using mounted_empty [of 1 "[]"] by (simp add: computed_empty avgValue_def)

text \<open>
  C3, amended. For the component mounted with an empty dataset, after any number of
  rounds of its effects, the filtered data and the chart data are empty and the
  component renders the "no data" state. The average is computed all the same, as
  \<open>0 / 0\<close>: it is NaN, nothing is thrown, and the value is not part of what is
  rendered.
\<close>

theorem empty_dataset_no_data:
  "filteredData (mounted n [] yrs) = [] \<and>
   chartData (filteredData (mounted n [] yrs)) (selectedParameter (mounted n [] yrs)) = Some [] \<and>
   DataVisualizer [] (mounted n [] yrs) = Some NoDataView \<and>
   map_option computed_avgValue (computed (mounted n [] yrs)) = Some NaN"
  using mounted_empty [of n yrs]
  by (simp add: chartData_Nil DataVisualizer_def computed_empty)

subsection \<open>The chart data\<close>

lemma those_map_Some:
  "(\<And>x. x \<in> set xs \<Longrightarrow> f x = Some (g x)) \<Longrightarrow> those (map f xs) = Some (map g xs)"
  by (induction xs) auto

lemma chartData_Some:
  assumes "\<And>idx item. item \<in> set fd \<Longrightarrow> chartPoint p idx item \<noteq> None"
  shows "chartData fd p = Some (map (\<lambda>(idx, item). the (chartPoint p idx item)) (enumerate 0 fd))"
  unfolding chartData_def
proof (rule those_map_Some)
  fix x assume "x \<in> set (enumerate 0 fd)"
  then have "snd x \<in> set fd"
    by (metis enumerate_eq_zip prod.collapse set_zip_rightD)
  then have "chartPoint p (fst x) (snd x) \<noteq> None" by (rule assms)
  then show "(case x of (idx, item) \<Rightarrow> chartPoint p idx item)
             = Some (case x of (idx, item) \<Rightarrow> the (chartPoint p idx item))"
    by (cases x) auto
qed

lemma chartPoint_fields:
  assumes d: "map_of item ''description'' = Some (JStr d)"
      and v: "map_of item p = Some v"
      and p: "p \<noteq> ''id''" "p \<noteq> ''shortDescription''"
  shows "\<exists>pt. chartPoint p idx item = Some pt \<and>
           (\<forall>k. k \<noteq> ''id'' \<and> k \<noteq> ''shortDescription'' \<and> k \<noteq> p \<longrightarrow> map_of pt k = map_of item k) \<and>
           map_of pt ''id'' = Some (JNum (Fin (of_nat (idx + 1)))) \<and>
           map_of pt ''shortDescription''
             = Some (JStr (if length d \<le> 15 then d else take 15 d @ [ellipsis])) \<and>
           map_of pt p = Some (JNum (formatValue v))"
  using p by (auto simp: chartPoint_def d v update_conv' truncateTo_def)

text \<open>
  C6. For every filtered dataset whose records have a string \<open>description\<close> and the
  selected parameter among their keys, the parameter not being one of the two keys the
  transform adds (\<open>id\<close>, \<open>shortDescription\<close>), the chart data is a list of the same
  length; point \<open>i\<close> keeps every other field of record \<open>i\<close>, has \<open>id = i + 1\<close>, has
  as \<open>shortDescription\<close> the description when it has at most 15 characters and else
  its first 15 characters and the ellipsis, and has under the selected parameter the
  number \<open>formatValue\<close> parses from the record's value.
\<close>

theorem chart_data_points:
  assumes wf: "\<forall>item \<in> set fd. (\<exists>d. map_of item ''description'' = Some (JStr d)) \<and>
                                 map_of item p \<noteq> None"
      and p: "p \<noteq> ''id''" "p \<noteq> ''shortDescription''"
  shows "\<exists>cd. chartData fd p = Some cd \<and> length cd = length fd \<and>
           (\<forall>i < length fd.
              (\<forall>k. k \<noteq> ''id'' \<and> k \<noteq> ''shortDescription'' \<and> k \<noteq> p \<longrightarrow>
                   map_of (cd ! i) k = map_of (fd ! i) k) \<and>
              map_of (cd ! i) ''id'' = Some (JNum (Fin (of_nat (i + 1)))) \<and>
              (\<forall>d. map_of (fd ! i) ''description'' = Some (JStr d) \<longrightarrow>
                   map_of (cd ! i) ''shortDescription''
                     = Some (JStr (if length d \<le> 15 then d else take 15 d @ [ellipsis]))) \<and>
              (\<forall>v. map_of (fd ! i) p = Some v \<longrightarrow>
                   map_of (cd ! i) p = Some (JNum (formatValue v))))"
proof -
  let ?cd = "map (\<lambda>(idx, item). the (chartPoint p idx item)) (enumerate 0 fd)"
  have defined: "chartPoint p idx item \<noteq> None" if "item \<in> set fd" for idx item
  proof -
    from wf that obtain d v where "map_of item ''description'' = Some (JStr d)"
      and "map_of item p = Some v" by auto
    from chartPoint_fields [OF this p] show ?thesis by auto
  qed
  have cd: "chartData fd p = Some ?cd" by (rule chartData_Some) (rule defined)
  have len: "length ?cd = length fd" by simp
  have pts: "(\<forall>k. k \<noteq> ''id'' \<and> k \<noteq> ''shortDescription'' \<and> k \<noteq> p \<longrightarrow>
                   map_of (?cd ! i) k = map_of (fd ! i) k) \<and>
              map_of (?cd ! i) ''id'' = Some (JNum (Fin (of_nat (i + 1)))) \<and>
              (\<forall>d. map_of (fd ! i) ''description'' = Some (JStr d) \<longrightarrow>
                   map_of (?cd ! i) ''shortDescription''
                     = Some (JStr (if length d \<le> 15 then d else take 15 d @ [ellipsis]))) \<and>
              (\<forall>v. map_of (fd ! i) p = Some v \<longrightarrow>
                   map_of (?cd ! i) p = Some (JNum (formatValue v)))"
    if i: "i < length fd" for i
  proof -
    from i have mem: "fd ! i \<in> set fd" by simp
    with wf obtain d v where d: "map_of (fd ! i) ''description'' = Some (JStr d)"
      and v: "map_of (fd ! i) p = Some v" by auto
    from chartPoint_fields [OF d v p, of i] obtain pt where
      pt: "chartPoint p i (fd ! i) = Some pt"
      and rest: "\<forall>k. k \<noteq> ''id'' \<and> k \<noteq> ''shortDescription'' \<and> k \<noteq> p \<longrightarrow> map_of pt k = map_of (fd ! i) k"
        "map_of pt ''id'' = Some (JNum (Fin (of_nat (i + 1))))"
        "map_of pt ''shortDescription''
             = Some (JStr (if length d \<le> 15 then d else take 15 d @ [ellipsis]))"
        "map_of pt p = Some (JNum (formatValue v))"
      by blast
    have "?cd ! i = pt" using i pt by (simp add: nth_enumerate_eq)
    then show ?thesis using rest d v by simp
  qed
  show ?thesis using cd len pts by blast
qed

theorem chart_data_points_witness:
  "\<exists>cd. chartData [plantDataOf rowA, plantDataOf rowB] ''avgSavings'' = Some cd \<and>
      length cd = 2 \<and>
      map_of (cd ! 0) ''id'' = Some (JNum (Fin 1)) \<and>
      map_of (cd ! 0) ''arc'' = Some (JStr ''2.7142'') \<and>
      map_of (cd ! 0) ''shortDescription'' = Some (JStr (''Utilize higher '' @ [ellipsis])) \<and>
      map_of (cd ! 0) ''avgSavings'' = Some (JNum (Fin 1234)) \<and>
      map_of (cd ! 1) ''id'' = Some (JNum (Fin 2)) \<and>
      map_of (cd ! 1) ''shortDescription'' = Some (JStr ''Eliminate leaks'') \<and>
      map_of (cd ! 1) ''avgSavings'' = Some (JNum (Fin 9800))"
proof -
  let ?fd = "[plantDataOf rowA, plantDataOf rowB]"
  have wf: "\<forall>item \<in> set ?fd. (\<exists>d. map_of item ''description'' = Some (JStr d)) \<and>
                                  map_of item ''avgSavings'' \<noteq> None"
    by (simp add: plantDataOf_def)
  have p: "''avgSavings'' \<noteq> ''id''" "''avgSavings'' \<noteq> ''shortDescription''" by simp_all
  from chart_data_points [OF wf p] obtain cd where
    cd: "chartData ?fd ''avgSavings'' = Some cd" and len: "length cd = length ?fd"
    and pts: "\<forall>i < length ?fd.
              (\<forall>k. k \<noteq> ''id'' \<and> k \<noteq> ''shortDescription'' \<and> k \<noteq> ''avgSavings'' \<longrightarrow>
                   map_of (cd ! i) k = map_of (?fd ! i) k) \<and>
              map_of (cd ! i) ''id'' = Some (JNum (Fin (of_nat (i + 1)))) \<and>
              (\<forall>d. map_of (?fd ! i) ''description'' = Some (JStr d) \<longrightarrow>
                   map_of (cd ! i) ''shortDescription''
                     = Some (JStr (if length d \<le> 15 then d else take 15 d @ [ellipsis]))) \<and>
              (\<forall>v. map_of (?fd ! i) ''avgSavings'' = Some v \<longrightarrow>
                   map_of (cd ! i) ''avgSavings'' = Some (JNum (formatValue v)))"
    by blast
  from pts have p0:
    "map_of (cd ! 0) ''arc'' = map_of (plantDataOf rowA) ''arc''"
    "map_of (cd ! 0) ''id'' = Some (JNum (Fin 1))"
    "map_of (cd ! 0) ''shortDescription'' = Some (JStr (''Utilize higher '' @ [ellipsis]))"
    "map_of (cd ! 0) ''avgSavings'' = Some (JNum (formatValue (JStr ''$1,234'')))"
    by (simp_all add: plantDataOf_def rowA_def)
  from pts have p1:
    "map_of (cd ! 1) ''id'' = Some (JNum (Fin 2))"
    "map_of (cd ! 1) ''shortDescription'' = Some (JStr ''Eliminate leaks'')"
    "map_of (cd ! 1) ''avgSavings'' = Some (JNum (formatValue (JStr ''$9,800'')))"
    by (simp_all add: plantDataOf_def rowB_def)
  have "formatValue (JStr ''$1,234'') = Fin 1234" "formatValue (JStr ''$9,800'') = Fin 9800"
    by (simp_all add: parse_defs roundToDouble_simps)
  with cd len p0 p1 show ?thesis by (simp add: plantDataOf_def rowA_def)
qed


subsection \<open>The formats round-trip\<close>

lemma ten_cases: "d < 10 \<Longrightarrow> d = 0 \<or> d = 1 \<or> d = 2 \<or> d = 3 \<or> d = 4 \<or> d = 5 \<or> d = 6 \<or> d = 7 \<or> d = 8 \<or> d = (9::nat)"
  by arith

lemma isDigit_digitChar: "d < 10 \<Longrightarrow> isDigit (digitChar d)"
  unfolding isDigit_def digitChar_def by (rule nth_mem) simp

lemma digitVal_digitChar: "d < 10 \<Longrightarrow> digitVal (digitChar d) = d"
  by (drule ten_cases) (auto simp: digitVal_def digitChar_def)

lemma digitChar_plain: "d < 10 \<Longrightarrow> digitChar d \<notin> set ''$,%''"
  by (drule ten_cases) (auto simp: digitChar_def)

lemma digitsVal_append: "digitsVal (xs @ ys) = digitsVal xs * 10 ^ length ys + digitsVal ys"
proof -
  have shift: "foldl (\<lambda>a c. 10 * a + digitVal c) a ys
        = a * 10 ^ length ys + foldl (\<lambda>a c. 10 * a + digitVal c) 0 ys" for a
  proof (induction ys arbitrary: a rule: rev_induct)
    case Nil show ?case by simp
  next
    case (snoc y ys)
    show ?case by (simp add: snoc.IH [of a])
  qed
  show ?thesis unfolding digitsVal_def foldl_append by (rule shift)
qed

lemma digitsVal_single: "digitsVal [c] = digitVal c"
  by (simp add: digitsVal_def)

lemma decimal_digits: "digitString (decimal n) \<and> digitsVal (decimal n) = n"
proof (induction n rule: decimal.induct)
  case (1 n)
  show ?case
  proof (cases "n < 10")
    case True
    then show ?thesis
      by (simp add: decimal.simps [of n] digitString_def isDigit_digitChar digitsVal_single
            digitVal_digitChar)
  next
    case False
    with 1 have IH: "digitString (decimal (n div 10))" "digitsVal (decimal (n div 10)) = n div 10"
      by simp_all
    have m: "n mod 10 < 10" by simp
    show ?thesis using False IH
      by (simp add: decimal.simps [of n] digitString_def isDigit_digitChar [OF m]
            digitsVal_append digitsVal_single digitVal_digitChar [OF m])
  qed
qed

lemma decimal_plain: "c \<in> set (decimal n) \<Longrightarrow> c \<notin> set ''$,%''"
proof (induction n rule: decimal.induct)
  case (1 n)
  show ?case
  proof (cases "n < 10")
    case True
    with "1.prems" digitChar_plain [of n] show ?thesis by (simp add: decimal.simps [of n])
  next
    case False
    with "1.prems" "1.IH" digitChar_plain [of "n mod 10"] show ?thesis
      by (auto simp: decimal.simps [of n])
  qed
qed

lemma removeAll_decimal: "removeAll_chars cs (decimal n) = decimal n" if "set cs \<subseteq> set ''$,%''"
  unfolding removeAll_chars_def
  by (rule filter_True) (use that decimal_plain in blast)

lemma removeAll_chars_append:
  "removeAll_chars cs (xs @ ys) = removeAll_chars cs xs @ removeAll_chars cs ys"
  by (simp add: removeAll_chars_def)

lemma three_digit_value:
  assumes "m < (1000::nat)"
  shows "(m div 100 mod 10) * 100 + (m div 10 mod 10) * 10 + m mod 10 = m"
proof -
  have lo: "m mod 100 = 10 * (m div 10 mod 10) + m mod 10"
    using mod_mult2_eq [of m 10 10] by simp
  have "m div 100 < 10" using assms by simp
  then have hi: "m div 100 mod 10 = m div 100" by simp
  have "m = 100 * (m div 100) + m mod 100" by simp
  with lo hi show ?thesis by simp
qed

lemma threeDigits_digits:
  assumes "m < 1000"
  shows "(\<forall>c \<in> set (threeDigits m). isDigit c) \<and> length (threeDigits m) = 3 \<and>
         digitsVal (threeDigits m) = m \<and>
         removeAll_chars ''$,'' (threeDigits m) = threeDigits m"
proof -
  have a: "m div 100 mod 10 < 10" and b: "m div 10 mod 10 < 10" and c: "m mod 10 < 10"
    by simp_all
  have "digitsVal (threeDigits m) = (m div 100 mod 10) * 100 + (m div 10 mod 10) * 10 + m mod 10"
    by (simp add: threeDigits_def digitsVal_def digitVal_digitChar [OF a]
          digitVal_digitChar [OF b] digitVal_digitChar [OF c])
  also have "\<dots> = m" by (rule three_digit_value [OF assms])
  finally have "digitsVal (threeDigits m) = m" .
  moreover have "\<forall>c \<in> set (threeDigits m). isDigit c"
    by (simp add: threeDigits_def isDigit_digitChar [OF a] isDigit_digitChar [OF b]
          isDigit_digitChar [OF c])
  moreover have "removeAll_chars ''$,'' (threeDigits m) = threeDigits m"
    using digitChar_plain [OF a] digitChar_plain [OF b] digitChar_plain [OF c]
    by (simp add: threeDigits_def removeAll_chars_def)
  ultimately show ?thesis by (simp add: threeDigits_def)
qed

lemma grouped_digits:
  "digitString (removeAll_chars ''$,'' (grouped n)) \<and>
   digitsVal (removeAll_chars ''$,'' (grouped n)) = n"
proof (induction n rule: grouped.induct)
  case (1 n)
  show ?case
  proof (cases "n < 1000")
    case True
    have "removeAll_chars ''$,'' (decimal n) = decimal n"
      by (rule removeAll_decimal) simp
    with True decimal_digits [of n] show ?thesis by (simp add: grouped.simps [of n])
  next
    case False
    let ?hi = "removeAll_chars ''$,'' (grouped (n div 1000))"
    from False 1 have IH: "digitString ?hi" "digitsVal ?hi = n div 1000" by simp_all
    have m: "n mod 1000 < 1000" by simp
    note lo = threeDigits_digits [OF m]
    have eq: "removeAll_chars ''$,'' (grouped n) = ?hi @ threeDigits (n mod 1000)"
      using False lo by (simp add: grouped.simps [of n] removeAll_chars_append)
         (simp add: removeAll_chars_def)
    have "digitsVal (?hi @ threeDigits (n mod 1000)) = (n div 1000) * 1000 + n mod 1000"
      using IH lo by (simp add: digitsVal_append)
    moreover have "digitString (?hi @ threeDigits (n mod 1000))"
      using IH lo by (auto simp: digitString_def)
    ultimately show ?thesis unfolding eq by simp
  qed
qed

lemma digit_not_space: "isDigit c \<Longrightarrow> \<not> isWhiteSpace c"
  by (auto simp: isDigit_def isWhiteSpace_def)

lemma strUnsigned_digits:
  assumes "digitString ds"
  shows "strUnsignedDecimalLiteral ds = Some (roundToDouble (of_nat (digitsVal ds)), [])"
proof -
  from assms obtain c cs where ds: "ds = c # cs" and c: "isDigit c"
    by (cases ds) (auto simp: digitString_def)
  have inf: "take 8 ds \<noteq> ''Infinity''" using c unfolding ds by (auto simp: isDigit_def)
  have tw: "takeWhile isDigit ds = ds" "dropWhile isDigit ds = []"
    using assms by (simp_all add: digitString_def)
  show ?thesis using assms inf
    by (simp add: strUnsignedDecimalLiteral_def tw Let_def digitString_def)
qed

lemma parseFloat_digits:
  assumes "digitString ds"
  shows "parseFloat ds = roundToDouble (of_nat (digitsVal ds))"
proof -
  from assms obtain c cs where ds: "ds = c # cs" and c: "isDigit c"
    by (cases ds) (auto simp: digitString_def)
  have ws: "dropWhile isWhiteSpace ds = ds" using digit_not_space [OF c] by (simp add: ds)
  have sign: "c \<noteq> CHR ''+''" "c \<noteq> CHR ''-''" using c by (auto simp: isDigit_def)
  have "strDecimalLiteral ds = strUnsignedDecimalLiteral ds"
    using sign by (simp add: strDecimalLiteral_def ds)
  then show ?thesis using strUnsigned_digits [OF assms] by (simp add: parseFloat_def ws)
qed

lemma parseFloat_one_decimal:
  assumes "digitString ds" and "isDigit d"
  shows "parseFloat (ds @ ''.'' @ [d] @ ''%'')
         = roundToDouble (of_nat (digitsVal ds) + of_nat (digitVal d) / 10)"
proof -
  let ?s = "ds @ ''.'' @ [d] @ ''%''"
  from assms obtain c cs where ds: "ds = c # cs" and c: "isDigit c"
    by (cases ds) (auto simp: digitString_def)
  have ws: "dropWhile isWhiteSpace ?s = ?s" using digit_not_space [OF c] by (simp add: ds)
  have sign: "c \<noteq> CHR ''+''" "c \<noteq> CHR ''-''" using c by (auto simp: isDigit_def)
  have lit: "strDecimalLiteral ?s = strUnsignedDecimalLiteral ?s"
    using sign by (simp add: strDecimalLiteral_def ds)
  have inf: "take 8 ?s \<noteq> ''Infinity''" using c unfolding ds by (auto simp: isDigit_def)
  have all: "\<And>x. x \<in> set ds \<Longrightarrow> isDigit x" using assms by (simp add: digitString_def)
  have point: "\<not> isDigit (CHR ''.'')" "\<not> isDigit (CHR ''%'')" by (simp_all add: isDigit_def)
  have tw: "takeWhile isDigit ?s = ds" "dropWhile isDigit ?s = ''.'' @ [d] @ ''%''"
    using all point by (simp_all add: takeWhile_append2 dropWhile_append2)
  have "strUnsignedDecimalLiteral ?s
        = Some (roundToDouble (of_nat (digitsVal ds) + of_nat (digitVal d) / 10), ''%'')"
    unfolding strUnsignedDecimalLiteral_def tw Let_def
    using inf assms point
    by (simp add: digitString_def exponentPart_def pow10_def digitsVal_single)
  then show ?thesis unfolding parseFloat_def ws lit by simp
qed

lemma numericFor_currency:
  "parseFloat (removeAll_chars ''$,'' (currency n)) = roundToDouble (of_nat n)"
proof -
  have "removeAll_chars ''$,'' (currency n) = removeAll_chars ''$,'' (grouped n)"
    by (simp add: currency_def removeAll_chars_def)
  then show ?thesis using grouped_digits [of n] by (simp add: parseFloat_digits)
qed

lemma numericFor_percentage:
  "parseFloat (percentage t) = roundToDouble (of_nat t / 10)"
proof -
  have m: "t mod 10 < 10" by simp
  have "parseFloat (percentage t)
        = roundToDouble (of_nat (t div 10) + of_nat (t mod 10) / 10)"
    unfolding percentage_def
    using parseFloat_one_decimal [of "decimal (t div 10)" "digitChar (t mod 10)"]
      decimal_digits [of "t div 10"] isDigit_digitChar [OF m] digitVal_digitChar [OF m]
    by simp
  moreover have "(of_nat (t div 10) :: rat) + of_nat (t mod 10) / 10 = of_nat t / 10"
  proof -
    have "(of_nat t :: rat) = of_nat (10 * (t div 10) + t mod 10)" by simp
    also have "\<dots> = 10 * of_nat (t div 10) + of_nat (t mod 10)"
      by (simp only: of_nat_add of_nat_mult of_nat_numeral)
    finally show ?thesis by simp
  qed
  ultimately show ?thesis by simp
qed

lemma numericFor_formatted:
  "holdsFormatted f r n \<Longrightarrow> numericFor r f = roundToDouble (formattedValue f n)"
  by (cases f) (simp_all add: numericFor_currency numericFor_percentage)

lemma formattedValue_nonneg: "0 \<le> formattedValue f n"
  by (cases f) simp_all

lemma formattedValue_mono: "x \<le> y \<Longrightarrow> formattedValue f x \<le> formattedValue f y"
  by (cases f) simp_all

text \<open>
  Two values that two doubles separate round to different doubles, and the difference
  of the results is positive.
\<close>

lemma roundToDouble_separated:
  assumes "0 \<le> u" and "u \<le> m1" and "m1 < m2" and "m2 \<le> v"
      and "roundToDouble m1 = Fin m1" and "roundToDouble m2 = Fin m2"
  shows "jslt (roundToDouble u) (roundToDouble v) \<and>
         jsgt (jssub (roundToDouble v) (roundToDouble u)) (Fin 0)"
proof -
  have lo: "jsle (roundToDouble u) (Fin m1)"
    using roundToDouble_mono [OF assms(1) assms(2)] assms(5) by simp
  have "0 \<le> m2" using assms by simp
  from roundToDouble_mono [OF this assms(4)] assms(6)
  have hi: "jsle (Fin m2) (roundToDouble v)" by simp
  from roundToDouble_nonneg [OF assms(1)] lo obtain p where
    p: "roundToDouble u = Fin p" "p \<le> m1" by (auto simp: jsle_def)
  have "0 \<le> v" using assms by simp
  from roundToDouble_nonneg [OF this] hi have
    "roundToDouble v = PInf \<or> (\<exists>r. roundToDouble v = Fin r \<and> m2 \<le> r)"
    by (auto simp: jsle_def)
  then show ?thesis using p assms(3) by (auto simp: jsgt_def jssub_def)
qed

text \<open>Between two amounts of tenths there are two multiples of \<open>1/32\<close>.\<close>

lemma tenths_separated:
  assumes "x < y" and "y < 2 ^ 48"
  shows "\<exists>m1 m2. (of_nat x :: rat) / 10 \<le> m1 \<and> m1 < m2 \<and> m2 \<le> of_nat y / 10 \<and>
           roundToDouble m1 = Fin m1 \<and> roundToDouble m2 = Fin m2"
proof -
  define k where "k = nat \<lceil>(of_nat x :: rat) * 32 / 10\<rceil>"
  have kc: "(of_nat k :: rat) = of_int \<lceil>(of_nat x :: rat) * 32 / 10\<rceil>"
    unfolding k_def by (simp add: ceiling_le_iff)
  have k_lo: "(of_nat x :: rat) * 32 / 10 \<le> of_nat k" unfolding kc by (rule le_of_int_ceiling)
  have k_hi: "(of_nat k :: rat) < of_nat x * 32 / 10 + 1" unfolding kc by linarith
  have "x + 1 \<le> y" using assms(1) by simp
  then have "(of_nat (x + 1) :: rat) \<le> of_nat y" by (simp only: of_nat_le_iff)
  then have xy: "(of_nat x :: rat) + 1 \<le> of_nat y" by simp
  have ylt: "(of_nat y :: rat) < 2 ^ 48"
    using assms(2) by (metis of_nat_less_iff of_nat_numeral of_nat_power)
  have k2: "(of_nat (k + 1) :: rat) \<le> of_nat y * 32 / 10" using k_hi xy by simp
  then have "(of_nat (k + 1) :: rat) < 2 ^ 53" using ylt by simp
  then have kb: "k + 1 < 2 ^ 53"
    by (metis of_nat_less_iff of_nat_numeral of_nat_power)
  have e: "(2::rat) powi (- 5) = 1 / 32" by (simp add: power_int_minus_divide)
  have r2: "roundToDouble (of_nat (k + 1) / 32) = Fin (of_nat (k + 1) / 32)"
    using nearest_pos_exact [of "k + 1" "- 5"] kb by (simp add: e)
  have r1: "roundToDouble (of_nat k / 32) = Fin (of_nat k / 32)"
  proof (cases "k = 0")
    case True
    then show ?thesis by (simp add: roundToDouble_0)
  next
    case False
    then show ?thesis using nearest_pos_exact [of k "- 5"] kb by (simp add: e)
  qed
  have "(of_nat x :: rat) / 10 \<le> of_nat k / 32" using k_lo by simp
  moreover have "(of_nat k :: rat) / 32 < of_nat (k + 1) / 32" by simp
  moreover have "(of_nat (k + 1) :: rat) / 32 \<le> of_nat y / 10" using k2 by simp
  ultimately show ?thesis using r1 r2 by blast
qed

lemma formattedValue_separated:
  assumes "x < y" and "y < 2 ^ 48"
  shows "\<exists>m1 m2. formattedValue f x \<le> m1 \<and> m1 < m2 \<and> m2 \<le> formattedValue f y \<and>
           roundToDouble m1 = Fin m1 \<and> roundToDouble m2 = Fin m2"
proof (cases "f = ImplRate")
  case True
  then show ?thesis using tenths_separated [OF assms] by simp
next
  case False
  have "y < 2 ^ 53" using assms(2) by (rule less_trans) simp
  moreover from this assms(1) have "x < 2 ^ 53" by simp
  ultimately have "roundToDouble (of_nat x) = Fin (of_nat x)"
    "roundToDouble (of_nat y) = Fin (of_nat y)"
    by (simp_all add: roundToDouble_nat)
  moreover have "(of_nat x :: rat) < of_nat y" using assms(1) by simp
  moreover have "formattedValue f x = of_nat x" "formattedValue f y = of_nat y"
    using False by (cases f; simp)+
  ultimately show ?thesis by (metis order_refl)
qed

text \<open>
  C5. The coercion is monotonic under the comparator of the sort. For two rows whose
  selected column holds \<open>x\<close> and \<open>y\<close> in the format of that column (the currency
  format for Avg Savings and Avg Cost, the percentage format for Impl. Rate),
  \<open>numericFor\<close> is the double nearest to each value (an infinity beyond the doubles),
  so \<open>x \<le> y\<close> gives \<open>numericFor a <= numericFor b\<close>. The comparator
  \<open>numericFor(b) - numericFor(a)\<close> then never is negative, and the one of the rows in
  the other order never is positive: the sort never puts \<open>a\<close> before \<open>b\<close> because of
  it. Below \<open>2^48\<close>, \<open>x < y\<close> gives \<open>numericFor a < numericFor b\<close> and a positive
  comparator, which puts \<open>b\<close> first. All this is said of the exact difference and of
  the difference rounded to a double, which is the value the code's comparator returns.
\<close>

theorem coercion_monotonic:
  assumes "holdsFormatted f a x" and "holdsFormatted f b y" and "x \<le> y"
  shows "numericFor a f = roundToDouble (formattedValue f x) \<and>
         numericFor b f = roundToDouble (formattedValue f y) \<and>
         jsle (numericFor a f) (numericFor b f) \<and>
         \<not> jslt (descendingBy f a b) (Fin 0) \<and>
         \<not> jsgt (descendingBy f b a) (Fin 0) \<and>
         \<not> jslt (toDouble (descendingBy f a b)) (Fin 0) \<and>
         \<not> jsgt (toDouble (descendingBy f b a)) (Fin 0) \<and>
         (x < y \<and> y < 2 ^ 48 \<longrightarrow>
            jslt (numericFor a f) (numericFor b f) \<and>
            jsgt (descendingBy f a b) (Fin 0) \<and>
            jsgt (toDouble (descendingBy f a b)) (Fin 0))"
proof -
  have a: "numericFor a f = roundToDouble (formattedValue f x)"
    by (rule numericFor_formatted) fact
  have b: "numericFor b f = roundToDouble (formattedValue f y)"
    by (rule numericFor_formatted) fact
  have le: "jsle (roundToDouble (formattedValue f x)) (roundToDouble (formattedValue f y))"
    by (rule roundToDouble_mono [OF formattedValue_nonneg formattedValue_mono [OF assms(3)]])
  from roundToDouble_nonneg [OF formattedValue_nonneg, of f x]
       roundToDouble_nonneg [OF formattedValue_nonneg, of f y] le
  have cmp: "\<not> jslt (jssub (roundToDouble (formattedValue f y)) (roundToDouble (formattedValue f x)))
                   (Fin 0) \<and>
             \<not> jsgt (jssub (roundToDouble (formattedValue f x)) (roundToDouble (formattedValue f y)))
                   (Fin 0)"
    by (auto simp: jsle_def jsgt_def jssub_def)
  have strict: "jslt (roundToDouble (formattedValue f x)) (roundToDouble (formattedValue f y)) \<and>
                jsgt (jssub (roundToDouble (formattedValue f y)) (roundToDouble (formattedValue f x)))
                     (Fin 0)"
    if "x < y" and "y < 2 ^ 48"
  proof -
    from formattedValue_separated [OF that, of f] obtain m1 m2 where
      "formattedValue f x \<le> m1" "m1 < m2" "m2 \<le> formattedValue f y"
      "roundToDouble m1 = Fin m1" "roundToDouble m2 = Fin m2" by blast
    then show ?thesis by (intro roundToDouble_separated [OF formattedValue_nonneg])
  qed
  have exact: "jsle (numericFor a f) (numericFor b f) \<and>
         \<not> jslt (descendingBy f a b) (Fin 0) \<and>
         \<not> jsgt (descendingBy f b a) (Fin 0) \<and>
         (x < y \<and> y < 2 ^ 48 \<longrightarrow>
            jslt (numericFor a f) (numericFor b f) \<and> jsgt (descendingBy f a b) (Fin 0))"
    using le cmp strict by (simp add: a b descendingBy_def)
  have rounded:
    "jslt (toDouble (descendingBy f a b)) (Fin 0) = jslt (descendingBy f a b) (Fin 0)"
    "jsgt (toDouble (descendingBy f a b)) (Fin 0) = jsgt (descendingBy f a b) (Fin 0)"
    "jsgt (toDouble (descendingBy f b a)) (Fin 0) = jsgt (descendingBy f b a) (Fin 0)"
    unfolding descendingBy_def
    using toDouble_sub_sign [OF a b] toDouble_sub_sign [OF b a] by blast+
  show ?thesis unfolding rounded using a b exact by blast
qed

theorem coercion_monotonic_witness:
  "holdsFormatted AvgSavings rowA 1234 \<and> holdsFormatted AvgSavings rowB 9800 \<and>
   (1234 :: nat) \<le> 9800 \<and> (1234 :: nat) < 9800 \<and> (9800 :: nat) < 2 ^ 48 \<and>
   numericFor rowA AvgSavings = Fin 1234 \<and> numericFor rowB AvgSavings = Fin 9800 \<and>
   jsle (numericFor rowA AvgSavings) (numericFor rowB AvgSavings) \<and>
   jslt (numericFor rowA AvgSavings) (numericFor rowB AvgSavings) \<and>
   jsgt (descendingBy AvgSavings rowA rowB) (Fin 0) \<and>
   jsgt (toDouble (descendingBy AvgSavings rowA rowB)) (Fin 0)"
proof -
  have a: "holdsFormatted AvgSavings rowA 1234"
    by (simp add: rowA_def currency_def grouped.simps decimal.simps threeDigits_def digitChar_def)
  have b: "holdsFormatted AvgSavings rowB 9800"
    by (simp add: rowB_def currency_def grouped.simps decimal.simps threeDigits_def digitChar_def)
  have le: "(1234 :: nat) \<le> 9800" by simp
  have lt: "(1234 :: nat) < 9800 \<and> (9800 :: nat) < 2 ^ 48" by simp
  from coercion_monotonic [OF a b le] lt have
    "numericFor rowA AvgSavings = roundToDouble (formattedValue AvgSavings 1234)"
    "numericFor rowB AvgSavings = roundToDouble (formattedValue AvgSavings 9800)"
    "jsle (numericFor rowA AvgSavings) (numericFor rowB AvgSavings)"
    "jslt (numericFor rowA AvgSavings) (numericFor rowB AvgSavings)"
    "jsgt (descendingBy AvgSavings rowA rowB) (Fin 0)"
    "jsgt (toDouble (descendingBy AvgSavings rowA rowB)) (Fin 0)"
    by blast+
  moreover have "roundToDouble (formattedValue AvgSavings 1234) = Fin 1234"
    "roundToDouble (formattedValue AvgSavings 9800) = Fin 9800"
    by (simp_all add: roundToDouble_simps)
  ultimately show ?thesis using a b le lt by simp
qed

subsection \<open>The sort\<close>

lemma jsgt_sub_iff:
  "a \<noteq> NaN \<Longrightarrow> b \<noteq> NaN \<Longrightarrow> jsgt (jssub b a) (Fin 0) = jslt a b"
  by (cases a; cases b) (auto simp: jsgt_def jssub_def)

lemma jsge_total: "a \<noteq> NaN \<Longrightarrow> b \<noteq> NaN \<Longrightarrow> \<not> jslt a b \<Longrightarrow> jsge a b"
  by (simp add: jsge_def jsle_def)

lemma jslt_imp_jsge: "jslt a b \<Longrightarrow> jsge b a"
  by (cases a; cases b) (auto simp: jsge_def jsle_def)

lemma jsge_trans: "jsge a b \<Longrightarrow> jsge b c \<Longrightarrow> jsge a c"
  by (cases a; cases b; cases c) (auto simp: jsge_def jsle_def)

lemma set_insertBy: "set (insertBy cmp x ys) = insert x (set ys)"
  by (induction ys) auto

lemma set_sort_cmp: "set (sort_cmp cmp xs) = set xs"
  by (induction xs) (simp_all add: sort_cmp_def set_insertBy)

lemma length_insertBy: "length (insertBy cmp x ys) = Suc (length ys)"
  by (induction ys) auto

lemma length_sort_cmp: "length (sort_cmp cmp xs) = length xs"
  by (induction xs) (simp_all add: sort_cmp_def length_insertBy)

lemma sorted_insertBy:
  assumes "sorted_wrt (\<lambda>a b. jsge (key a) (key b)) ys"
      and "key x \<noteq> NaN" and "\<forall>y \<in> set ys. key y \<noteq> NaN"
  shows "sorted_wrt (\<lambda>a b. jsge (key a) (key b)) (insertBy (\<lambda>a b. jssub (key b) (key a)) x ys)"
  using assms
proof (induction ys)
  case Nil
  show ?case by simp
next
  case (Cons y ys)
  from Cons.prems have y: "key y \<noteq> NaN" by simp
  show ?case
  proof (cases "jslt (key x) (key y)")
    case True
    then have "jsge (key y) (key x)" by (rule jslt_imp_jsge)
    with Cons True show ?thesis
      by (auto simp: jsgt_sub_iff [OF Cons.prems(2) y] set_insertBy)
  next
    case False
    then have xy: "jsge (key x) (key y)" by (rule jsge_total [OF Cons.prems(2) y])
    have "jsge (key x) (key z)" if "z \<in> set ys" for z
      using Cons.prems(1) that jsge_trans [OF xy] by auto
    with Cons.prems(1) xy False show ?thesis
      by (auto simp: jsgt_sub_iff [OF Cons.prems(2) y])
  qed
qed

lemma sorted_sort_cmp:
  assumes "\<forall>x \<in> set xs. key x \<noteq> NaN"
  shows "sorted_wrt (\<lambda>a b. jsge (key a) (key b)) (sort_cmp (\<lambda>a b. jssub (key b) (key a)) xs)"
  using assms
proof (induction xs)
  case Nil
  show ?case by (simp add: sort_cmp_def)
next
  case (Cons x xs)
  then have "sorted_wrt (\<lambda>a b. jsge (key a) (key b)) (sort_cmp (\<lambda>a b. jssub (key b) (key a)) xs)"
    by simp
  moreover have "\<forall>y \<in> set (sort_cmp (\<lambda>a b. jssub (key b) (key a)) xs). key y \<noteq> NaN"
    using Cons.prems by (simp add: set_sort_cmp)
  ultimately have "sorted_wrt (\<lambda>a b. jsge (key a) (key b))
      (insertBy (\<lambda>a b. jssub (key b) (key a)) x (sort_cmp (\<lambda>a b. jssub (key b) (key a)) xs))"
    using Cons.prems by (intro sorted_insertBy) simp_all
  then show ?case by (simp add: sort_cmp_def)
qed

lemma descendingBy_eq: "descendingBy f = (\<lambda>a b. jssub (numericFor b f) (numericFor a f))"
  by (rule ext)+ (simp add: descendingBy_def)

lemma sorted_sort_descendingBy:
  "\<forall>r \<in> set xs. numericFor r f \<noteq> NaN \<Longrightarrow>
   sortedDescendingBy f (sort_cmp (descendingBy f) xs)"
  unfolding sortedDescendingBy_def descendingBy_eq
  by (rule sorted_sort_cmp [where key = "\<lambda>r. numericFor r f"])

lemma sorted_slice: "sorted_wrt R xs \<Longrightarrow> sorted_wrt R (slice xs a b)"
  unfolding slice_def by (intro sorted_wrt_take sorted_wrt_drop)

lemma set_slice: "set (slice xs a b) \<subseteq> set xs"
  unfolding slice_def by (meson set_drop_subset set_take_subset subset_trans)

lemma numericFor_top_rank: "numericFor (r\<lparr>top_rank := k\<rparr>) f = numericFor r f"
  by (cases f) simp_all

lemma nth_withRank: "i < length xs \<Longrightarrow> withRank xs ! i = (xs ! i)\<lparr>top_rank := i + 1\<rparr>"
  by (simp add: withRank_def nth_enumerate_eq)

lemma denseRanks_withRank: "denseRanks (withRank xs)"
  unfolding denseRanks_def
  by (rule nth_equalityI) (simp_all add: length_withRank nth_withRank del: upt_Suc)

lemma sorted_withRank:
  "sortedDescendingBy f xs \<Longrightarrow> sortedDescendingBy f (withRank xs)"
  unfolding sortedDescendingBy_def sorted_wrt_iff_nth_less
  by (simp add: length_withRank nth_withRank numericFor_top_rank)

subsection \<open>Ranks and order of the displayed list\<close>

lemma denseRanks_clientFilter: "denseRanks (clientFilter st prev)"
  unfolding clientFilter_def by (rule denseRanks_withRank)

lemma sorted_clientFilter:
  assumes "\<forall>r \<in> set prev. numericFor r (orderBy st) \<noteq> NaN"
  shows "sortedDescendingBy (orderBy st) (clientFilter st prev)"
proof -
  let ?kept = "filter (\<lambda>r. minCost st = [] \<or>
                           jsge (parseFloat (removeAll_chars ''$,'' (avgCost r))) (toNumber (minCost st)))
                (filter (\<lambda>r. minSavings st = [] \<or>
                              jsge (parseFloat (removeAll_chars ''$,'' (avgSavings r)))
                                   (toNumber (minSavings st)))
                   (filter (\<lambda>r. jsge (recommended r) (toNumber (minReco st))) prev))"
  have "\<forall>r \<in> set ?kept. numericFor r (orderBy st) \<noteq> NaN" using assms by simp
  then have "sortedDescendingBy (orderBy st) (sort_cmp (descendingBy (orderBy st)) ?kept)"
    by (rule sorted_sort_descendingBy)
  then have "sortedDescendingBy (orderBy st)
               (slice (sort_cmp (descendingBy (orderBy st)) ?kept) (Fin 0) (toNumber (showTop st)))"
    unfolding sortedDescendingBy_def by (rule sorted_slice)
  then show ?thesis unfolding clientFilter_def by (rule sorted_withRank)
qed

lemma fetchAggregates_ranks:
  "denseRanks (rows st) \<Longrightarrow> denseRanks (filtered st) \<Longrightarrow>
   denseRanks (rows (fetchAggregates res st)) \<and> denseRanks (filtered (fetchAggregates res st))"
  by (cases res)
     (simp_all add: fetchAggregates_def fetchAggregates_begin_def fetchAggregates_settle_def
        Let_def denseRanks_withRank)

lemma handleSearch_filtered:
  "filtered (handleSearch fetch st)
   = clientFilter st (filtered (fetchAggregates (fetch (AGG_URL @ searchQuery st)) st))"
  by (simp add: handleSearch_def Let_def)

lemma handleSearch_rows:
  "rows (handleSearch fetch st) = rows (fetchAggregates (fetch (AGG_URL @ searchQuery st)) st)"
  by (simp add: handleSearch_def Let_def)

lemma fire_ranks:
  assumes "denseRanks (rows st)" and "denseRanks (filtered st)"
  shows "denseRanks (rows (fire ev st)) \<and> denseRanks (filtered (fire ev st))"
proof (cases ev)
  case (OptionsFetched res)
  then show ?thesis using assms
    by (cases res) (simp_all add: optionsEffect_def)
next
  case (AggregatesFetched res)
  then show ?thesis using fetchAggregates_ranks [OF assms] by simp
next
  case (Search fetch)
  then show ?thesis using fetchAggregates_ranks [OF assms]
    by (simp add: handleSearch_filtered handleSearch_rows denseRanks_clientFilter)
next
  case Reset
  then show ?thesis using assms by (simp add: resetFilters_def)
qed (use assms in simp_all)

lemma reachable_ranks:
  "reachable st \<Longrightarrow> denseRanks (rows st) \<and> denseRanks (filtered st)"
proof (induction rule: reachable.induct)
  case reachable_init
  show ?case by (simp add: initialState_def denseRanks_def)
next
  case (reachable_fire st ev)
  then show ?case using fire_ranks by blast
qed

text \<open>
  C1, amended. In every reachable state the ranks of the displayed list are the dense
  sequence \<open>1..N\<close> in the order of the list; so they are after a search, after a
  sort-field change and after a filter reset. After a search the list is moreover in
  descending order of the numeric value of the sort field the search ran with (which
  stays the selected one), provided every row the request leaves in the list has a
  number, not NaN, in that field. A sort-field change alone leaves the list as it is.
\<close>

theorem ranks_dense_sorted_after_search:
  assumes "reachable st"
  shows "denseRanks (filtered st) \<and>
         denseRanks (filtered (handleSearch fetch st)) \<and>
         orderBy (handleSearch fetch st) = orderBy st \<and>
         ((\<forall>r \<in> set (filtered (fetchAggregates (fetch (AGG_URL @ searchQuery st)) st)).
              numericFor r (orderBy st) \<noteq> NaN) \<longrightarrow>
          sortedDescendingBy (orderBy st) (filtered (handleSearch fetch st))) \<and>
         filtered (fire (SetOrderBy f) st) = filtered st \<and>
         denseRanks (filtered (fire Reset st))"
proof (intro conjI impI)
  from reachable_ranks [OF assms] show "denseRanks (filtered st)" ..
  show "denseRanks (filtered (handleSearch fetch st))"
    unfolding handleSearch_filtered by (rule denseRanks_clientFilter)
  show "orderBy (handleSearch fetch st) = orderBy st"
    by (cases "fetch (AGG_URL @ searchQuery st)")
       (simp_all add: handleSearch_def fetchAggregates_def fetchAggregates_begin_def
          fetchAggregates_settle_def Let_def)
  show "filtered (fire (SetOrderBy f) st) = filtered st" by simp
  from reachable_ranks [OF assms] show "denseRanks (filtered (fire Reset st))"
    by (simp add: resetFilters_def)
next
  assume "\<forall>r \<in> set (filtered (fetchAggregates (fetch (AGG_URL @ searchQuery st)) st)).
            numericFor r (orderBy st) \<noteq> NaN"
  then show "sortedDescendingBy (orderBy st) (filtered (handleSearch fetch st))"
    unfolding handleSearch_filtered by (rule sorted_clientFilter)
qed

lemmas eval_defs =
  handleSearch_def fetchAggregates_def fetchAggregates_begin_def fetchAggregates_settle_def
  clientFilter_def withRank_def enumerate_eq_zip sort_cmp_def descendingBy_def slice_def
  jssub_def jsgt_def jsge_def jsle_def twoRows_def rowA_def rowB_def initialState_def
  toNumber_def trim_def nonDecimalIntegerLiteral_def parse_defs roundToDouble_simps Let_def

lemma search_twoRows:
  "filtered (handleSearch twoRows initialState) = [rowA\<lparr>top_rank := 1\<rparr>, rowB\<lparr>top_rank := 2\<rparr>]"
  by (simp add: eval_defs)

lemma search_twoRows_bySavings:
  "rows (handleSearch twoRows (initialState\<lparr>orderBy := AvgSavings\<rparr>))
   = [rowB\<lparr>top_rank := 1\<rparr>, rowA\<lparr>top_rank := 2\<rparr>]"
  by (simp add: eval_defs)

text \<open>
  C1, as stated, fails for the sort-field change and for the reset. After a search by
  Impl. Rate, selecting Avg Savings leaves the row of $1,234 before the row of $9,800.
  After a search by Avg Savings, the reset selects Impl. Rate and shows the rows of the
  last request as they are, 12.5% before 50.0%.
\<close>

theorem sort_field_change_counterexample:
  "enabled (Search twoRows) initialState \<and>
   enabled (SetOrderBy AvgSavings) (fire (Search twoRows) initialState) \<and>
   orderBy (fire (SetOrderBy AvgSavings) (fire (Search twoRows) initialState)) = AvgSavings \<and>
   \<not> sortedDescendingBy AvgSavings
       (filtered (fire (SetOrderBy AvgSavings) (fire (Search twoRows) initialState))) \<and>
   enabled (SetOrderBy AvgSavings) initialState \<and>
   enabled (Search twoRows) (fire (SetOrderBy AvgSavings) initialState) \<and>
   enabled Reset (fire (Search twoRows) (fire (SetOrderBy AvgSavings) initialState)) \<and>
   orderBy (fire Reset (fire (Search twoRows) (fire (SetOrderBy AvgSavings) initialState)))
     = ImplRate \<and>
   \<not> sortedDescendingBy ImplRate
       (filtered (fire Reset (fire (Search twoRows) (fire (SetOrderBy AvgSavings) initialState))))"
proof -
  have shown: "controlsShown (handleSearch twoRows st)" if "err st = None" for st
    using that
    by (simp add: controlsShown_def render_def handleSearch_def fetchAggregates_def
          fetchAggregates_begin_def fetchAggregates_settle_def twoRows_def Let_def)
  have init: "controlsShown initialState" "err initialState = None"
    "controlsShown (initialState\<lparr>orderBy := AvgSavings\<rparr>)"
    by (simp_all add: controlsShown_def render_def initialState_def)
  have a: "\<not> sortedDescendingBy AvgSavings [rowA\<lparr>top_rank := 1\<rparr>, rowB\<lparr>top_rank := 2\<rparr>]"
    by (simp add: sortedDescendingBy_def rowA_def rowB_def jsge_def jsle_def parse_defs
          roundToDouble_simps)
  have b: "\<not> sortedDescendingBy ImplRate [rowB\<lparr>top_rank := 1\<rparr>, rowA\<lparr>top_rank := 2\<rparr>]"
    by (simp add: sortedDescendingBy_def rowA_def rowB_def jsge_def jsle_def parse_defs
          roundToDouble_simps)
  show ?thesis
    using a b init shown [of initialState] shown [of "initialState\<lparr>orderBy := AvgSavings\<rparr>"]
    by (simp add: search_twoRows search_twoRows_bySavings resetFilters_def)
qed

theorem ranks_dense_sorted_after_search_witness:
  "reachable initialState \<and>
   denseRanks (filtered (handleSearch twoRows initialState)) \<and>
   sortedDescendingBy (orderBy initialState) (filtered (handleSearch twoRows initialState)) \<and>
   filtered (handleSearch twoRows initialState) = [rowA\<lparr>top_rank := 1\<rparr>, rowB\<lparr>top_rank := 2\<rparr>]"
proof -
  have r: "reachable initialState" by (rule reachable_init)
  have n: "\<forall>r \<in> set (filtered (fetchAggregates (twoRows (AGG_URL @ searchQuery initialState))
                                    initialState)).
             numericFor r (orderBy initialState) \<noteq> NaN"
    by (simp add: eval_defs)
  show ?thesis
    using ranks_dense_sorted_after_search [OF r, of twoRows] n r search_twoRows by blast
qed

subsection \<open>The Show Top cut\<close>

lemma clientFilter_take:
  assumes "jsle (Fin 0) (toNumber (showTop st))"
  shows "clientFilter st prev =
           withRank (take (relativeIndex (length (filter (passesFilters st) prev)) (toNumber (showTop st)))
                          (sort_cmp (descendingBy (orderBy st)) (filter (passesFilters st) prev)))"
proof -
  have kept: "filter (\<lambda>r. minCost st = [] \<or>
                           jsge (parseFloat (removeAll_chars ''$,'' (avgCost r))) (toNumber (minCost st)))
                (filter (\<lambda>r. minSavings st = [] \<or>
                              jsge (parseFloat (removeAll_chars ''$,'' (avgSavings r)))
                                   (toNumber (minSavings st)))
                   (filter (\<lambda>r. jsge (recommended r) (toNumber (minReco st))) prev))
              = filter (passesFilters st) prev"
    unfolding filter_filter passesFilters_def by (rule filter_cong [OF refl]) blast
  have zero: "relativeIndex len (Fin 0) = 0" for len by simp
  show ?thesis
    unfolding clientFilter_def kept slice_def zero length_sort_cmp by simp
qed

lemma relativeIndex_maximal:
  assumes "jsle (Fin 0) n"
  shows "relativeIndex len n = len \<or> jslt n (Fin (of_nat (relativeIndex len n) + 1))"
proof (cases n)
  case (Fin q)
  with assms have q: "0 \<le> q" by (simp add: jsle_def)
  then have f: "0 \<le> \<lfloor>q\<rfloor>" by simp
  have r: "relativeIndex len n = min (nat \<lfloor>q\<rfloor>) len"
    using Fin q f by (simp add: Let_def)
  show ?thesis
  proof (cases "len \<le> nat \<lfloor>q\<rfloor>")
    case True
    then show ?thesis using r by simp
  next
    case False
    then have "relativeIndex len n = nat \<lfloor>q\<rfloor>" using r by simp
    moreover have "(of_nat (nat \<lfloor>q\<rfloor>) :: rat) = of_int \<lfloor>q\<rfloor>" using f by simp
    moreover have "q < of_int \<lfloor>q\<rfloor> + 1" by linarith
    ultimately show ?thesis using Fin by simp
  qed
next
  case NaN with assms show ?thesis by (simp add: jsle_def)
next
  case NInf with assms show ?thesis by (simp add: jsle_def)
next
  case PInf then show ?thesis by simp
qed

lemma in_withRank:
  assumes "a \<in> set (withRank xs)"
  shows "\<exists>x \<in> set xs. \<exists>k. a = x\<lparr>top_rank := k\<rparr>"
proof -
  from assms obtain i where i: "i < length (withRank xs)" "withRank xs ! i = a"
    unfolding in_set_conv_nth by blast
  then have "i < length xs" by (simp add: length_withRank)
  then have "xs ! i \<in> set xs" "a = (xs ! i)\<lparr>top_rank := i + 1\<rparr>"
    using i(2) by (simp_all add: nth_withRank)
  then show ?thesis by blast
qed

lemma search_twelveRows:
  "map recommended (filtered (handleSearch twelveRows (initialState\<lparr>orderBy := Recommended\<rparr>)))
   = [Fin 21, Fin 20, Fin 19, Fin 18, Fin 17, Fin 16, Fin 15, Fin 14, Fin 13, Fin 12]"
  by (simp add: eval_defs twelveRows_def upt_rec)


lemma kept_twelveRows:
  "map recommended
     (sort_cmp (descendingBy Recommended)
        (filter (passesFilters (initialState\<lparr>orderBy := Recommended\<rparr>))
           (filtered (fetchAggregates
                        (twelveRows (AGG_URL @ searchQuery (initialState\<lparr>orderBy := Recommended\<rparr>)))
                        (initialState\<lparr>orderBy := Recommended\<rparr>)))))
   = [Fin 21, Fin 20, Fin 19, Fin 18, Fin 17, Fin 16, Fin 15, Fin 14, Fin 13, Fin 12, Fin 11, Fin 10]"
  by (simp add: eval_defs twelveRows_def passesFilters_def upt_rec)

text \<open>
  C10. After a search the displayed list \<open>shown\<close> is cut from \<open>ordered\<close>, the sorted
  list of the records that pass the three filters (of what the request left in the
  list): it has at most \<open>showTop\<close> records; it is the first records of \<open>ordered\<close>, in
  this order, with new ranks; nothing is cut that Show Top has room for (all of
  \<open>ordered\<close> is shown, or one record more would exceed Show Top); when no key is NaN,
  no record that was cut has a larger key than a record shown; and the current page
  is 1. This holds for every Show Top value that is a number and not negative (the
  dropdown gives 10, 25 or 50), whatever the request gave.
\<close>

theorem search_show_top_limit:
  assumes "jsle (Fin 0) (toNumber (showTop st))"
      and "ordered = sort_cmp (descendingBy (orderBy st))
                      (filter (passesFilters st)
                         (filtered (fetchAggregates (fetch (AGG_URL @ searchQuery st)) st)))"
      and "shown = filtered (handleSearch fetch st)"
  shows "jsle (Fin (of_nat (length shown))) (toNumber (showTop st)) \<and>
         length shown \<le> length ordered \<and>
         (length shown = length ordered \<or>
          jslt (toNumber (showTop st)) (Fin (of_nat (length shown) + 1))) \<and>
         shown = withRank (take (length shown) ordered) \<and>
         ((\<forall>r \<in> set ordered. numericFor r (orderBy st) \<noteq> NaN) \<longrightarrow>
          (\<forall>a \<in> set shown. \<forall>b \<in> set (drop (length shown) ordered).
             jsge (numericFor a (orderBy st)) (numericFor b (orderBy st)))) \<and>
         page (handleSearch fetch st) = 1"
proof -
  let ?prev = "filtered (fetchAggregates (fetch (AGG_URL @ searchQuery st)) st)"
  let ?kept = "filter (passesFilters st) ?prev"
  let ?n = "relativeIndex (length ?kept) (toNumber (showTop st))"
  have len: "length ordered = length ?kept" unfolding assms(2) by (rule length_sort_cmp)
  have n: "?n \<le> length ordered" unfolding len by (rule relativeIndex_le)
  have shown: "shown = withRank (take ?n ordered)"
    unfolding assms(2,3) handleSearch_filtered by (rule clientFilter_take [OF assms(1)])
  then have l: "length shown = ?n" using n by (simp add: length_withRank)
  have a: "jsle (Fin (of_nat (length shown))) (toNumber (showTop st))"
    unfolding l by (rule relativeIndex_le_arg [OF assms(1)])
  have c: "length shown = length ordered \<or>
           jslt (toNumber (showTop st)) (Fin (of_nat (length shown) + 1))"
    unfolding l len by (rule relativeIndex_maximal [OF assms(1)])
  have d: "shown = withRank (take (length shown) ordered)" unfolding l by (rule shown)
  have f: "jsge (numericFor a (orderBy st)) (numericFor b (orderBy st))"
    if nan: "\<forall>r \<in> set ordered. numericFor r (orderBy st) \<noteq> NaN"
      and a: "a \<in> set shown" and b: "b \<in> set (drop (length shown) ordered)" for a b
  proof -
    have "\<forall>r \<in> set ?kept. numericFor r (orderBy st) \<noteq> NaN"
      using nan unfolding assms(2) set_sort_cmp .
    then have "sortedDescendingBy (orderBy st) ordered"
      unfolding assms(2) by (rule sorted_sort_descendingBy)
    then have "sorted_wrt (\<lambda>a b. jsge (numericFor a (orderBy st)) (numericFor b (orderBy st)))
                 (take ?n ordered @ drop ?n ordered)"
      by (simp add: sortedDescendingBy_def)
    then have all: "\<forall>x \<in> set (take ?n ordered). \<forall>y \<in> set (drop ?n ordered).
                 jsge (numericFor x (orderBy st)) (numericFor y (orderBy st))"
      unfolding sorted_wrt_append by blast
    from a obtain x k where x: "x \<in> set (take ?n ordered)" "a = x\<lparr>top_rank := k\<rparr>"
      unfolding shown using in_withRank by blast
    from all x(1) b have "jsge (numericFor x (orderBy st)) (numericFor b (orderBy st))"
      unfolding l by blast
    then show ?thesis unfolding x(2) numericFor_top_rank .
  qed
  have p: "page (handleSearch fetch st) = 1" by (simp add: handleSearch_def Let_def)
  have b: "length shown \<le> length ordered" using n l by simp
  have e: "(\<forall>r \<in> set ordered. numericFor r (orderBy st) \<noteq> NaN) \<longrightarrow>
           (\<forall>a \<in> set shown. \<forall>b \<in> set (drop (length shown) ordered).
              jsge (numericFor a (orderBy st)) (numericFor b (orderBy st)))"
    using f by blast
  show ?thesis by (intro conjI) (rule a b c d e p)+
qed

theorem search_show_top_limit_witness:
  "jsle (Fin 0) (toNumber (showTop (initialState\<lparr>orderBy := Recommended\<rparr>))) \<and>
   length (filtered (handleSearch twelveRows (initialState\<lparr>orderBy := Recommended\<rparr>))) = 10 \<and>
   length (filter (passesFilters (initialState\<lparr>orderBy := Recommended\<rparr>))
             (filtered (fetchAggregates
                          (twelveRows (AGG_URL @ searchQuery (initialState\<lparr>orderBy := Recommended\<rparr>)))
                          (initialState\<lparr>orderBy := Recommended\<rparr>)))) = 12 \<and>
   map recommended (filtered (handleSearch twelveRows (initialState\<lparr>orderBy := Recommended\<rparr>)))
     = [Fin 21, Fin 20, Fin 19, Fin 18, Fin 17, Fin 16, Fin 15, Fin 14, Fin 13, Fin 12] \<and>
   jslt (toNumber (showTop (initialState\<lparr>orderBy := Recommended\<rparr>)))
        (Fin (of_nat (length (filtered (handleSearch twelveRows
                                          (initialState\<lparr>orderBy := Recommended\<rparr>)))) + 1)) \<and>
   jsge (numericFor (last (filtered (handleSearch twelveRows (initialState\<lparr>orderBy := Recommended\<rparr>))))
           Recommended)
        (numericFor
           (sort_cmp (descendingBy Recommended)
              (filter (passesFilters (initialState\<lparr>orderBy := Recommended\<rparr>))
                 (filtered (fetchAggregates
                              (twelveRows (AGG_URL @ searchQuery (initialState\<lparr>orderBy := Recommended\<rparr>)))
                              (initialState\<lparr>orderBy := Recommended\<rparr>)))) ! 10)
           Recommended) \<and>
   page (handleSearch twelveRows (initialState\<lparr>orderBy := Recommended\<rparr>)) = 1"
proof -
  let ?st = "initialState\<lparr>orderBy := Recommended\<rparr>"
  let ?kept = "filter (passesFilters ?st)
                 (filtered (fetchAggregates (twelveRows (AGG_URL @ searchQuery ?st)) ?st))"
  let ?ordered = "sort_cmp (descendingBy Recommended) ?kept"
  let ?shown = "filtered (handleSearch twelveRows ?st)"
  have ob: "orderBy ?st = Recommended" by simp
  have h: "jsle (Fin 0) (toNumber (showTop ?st))"
    by (simp add: initialState_def toNumber_10 jsle_def)
  have ls: "length ?shown = 10"
    using arg_cong [OF search_twelveRows, of length] by simp
  have lo: "length ?ordered = 12"
    using arg_cong [OF kept_twelveRows, of length] by simp
  then have lk: "length ?kept = 12" by (simp add: length_sort_cmp)
  have nan: "\<forall>r \<in> set ?ordered. numericFor r (orderBy ?st) \<noteq> NaN"
  proof
    fix r assume "r \<in> set ?ordered"
    then have "recommended r \<in> set (map recommended ?ordered)" unfolding set_map by (rule imageI)
    then show "numericFor r (orderBy ?st) \<noteq> NaN" unfolding kept_twelveRows ob by auto
  qed
  have a: "last ?shown \<in> set ?shown" using ls by (intro last_in_set) auto
  have b: "?ordered ! 10 \<in> set (drop (length ?shown) ?ordered)"
    unfolding ls using lo by (simp add: in_set_conv_nth) (rule exI [of _ 0], simp)
  from search_show_top_limit [OF h, where fetch = twelveRows and ordered = ?ordered and shown = ?shown]
  have t: "length ?shown = length ?ordered \<or>
           jslt (toNumber (showTop ?st)) (Fin (of_nat (length ?shown) + 1))"
       "(\<forall>r \<in> set ?ordered. numericFor r (orderBy ?st) \<noteq> NaN) \<longrightarrow>
        (\<forall>a \<in> set ?shown. \<forall>b \<in> set (drop (length ?shown) ?ordered).
           jsge (numericFor a (orderBy ?st)) (numericFor b (orderBy ?st)))"
       "page (handleSearch twelveRows ?st) = 1"
    unfolding ob by blast+
  from t(1) have c: "jslt (toNumber (showTop ?st)) (Fin (of_nat (length ?shown) + 1))"
    unfolding ls lo by simp
  from t(2) nan a b have d: "jsge (numericFor (last ?shown) Recommended)
                                  (numericFor (?ordered ! 10) Recommended)"
    unfolding ob by blast
  show ?thesis by (intro conjI) (rule h ls lk search_twelveRows c d t(3))+
qed

end
